theory Spec2Isabelle
  imports Complex_Main "HOL-Library.Monad_Syntax"
begin

section \<open>Numbers\<close>

text \<open>
  The game computes with JavaScript numbers. They are modelled as real numbers; the one
  operation of the code that can leave the finite numbers under this reading is a division
  whose divisor is zero (JavaScript answers Infinity or NaN and raises nothing). Every
  division by a value that is not a non-zero literal is therefore written \<open>jsdiv\<close>, whose
  result \<open>None\<close> stands for such a non-finite number, and the functions that divide
  return an option. Divisions by a non-zero literal (\<open>w / 2\<close>, \<open>x / 22\<close>) are plain
  real divisions.

  A JavaScript number is an IEEE 754 double, and each arithmetic operation rounds its
  result. The two properties that depend on that rounding (the symmetry of the line of
  sight, the separation after a collision is resolved) are stated about the functions of
  the section on double-precision arithmetic, which round every sum, difference and
  quotient as the code does.
\<close>

definition jsdiv :: "real \<Rightarrow> real \<Rightarrow> real option" where
  "jsdiv a b = (if b = 0 then None else Some (a / b))"

text \<open>\<^verbatim>\<open>function clamp(v, lo, hi) { return Math.max(lo, Math.min(hi, v)); }\<close>\<close>

definition clamp :: "'a::linorder \<Rightarrow> 'a \<Rightarrow> 'a \<Rightarrow> 'a" where
  "clamp v lo hi = max lo (min hi v)"

text \<open>\<open>Math.hypot(x, y)\<close> and \<^verbatim>\<open>function len(x, y) { return Math.hypot(x, y); }\<close>\<close>

definition hypot :: "real \<Rightarrow> real \<Rightarrow> real" where
  "hypot a b = sqrt (a * a + b * b)"

definition len :: "real \<Rightarrow> real \<Rightarrow> real" where
  "len a b = hypot a b"

text \<open>An object \<open>{x, y}\<close>: the result of \<open>norm\<close>, a waypoint, a cell centre.\<close>

record point =
  ptx :: real
  pty :: real

text \<open>
  \<^verbatim>\<open>function norm(x, y) { const l = Math.hypot(x, y) || 1; return { x: x / l, y: y / l }; }\<close>
  The operator \<open>||\<close> replaces a length of zero by one. (The name \<open>norm\<close> is taken in
  HOL, hence \<open>normv\<close>.)
\<close>

definition normv :: "real \<Rightarrow> real \<Rightarrow> point option" where
  "normv a b =
     (let l = (if hypot a b = 0 then 1 else hypot a b) in
      case jsdiv a l of
        None \<Rightarrow> None
      | Some nx \<Rightarrow> (case jsdiv b l of
          None \<Rightarrow> None
        | Some ny \<Rightarrow> Some \<lparr>ptx = nx, pty = ny\<rparr>))"

section \<open>Geometry primitives\<close>

text \<open>
  An axis-aligned rectangle \<open>{x, y, w, h}\<close>. The fields are named \<open>rx\<close>, \<open>ry\<close>,
  \<open>rw\<close>, \<open>rh\<close> here. The player and the monster are objects with the same four fields
  and more, so they are extensions of this record, and the geometry functions accept any
  extension, as the JavaScript functions accept any object with these fields.
\<close>

record rect =
  rx :: real
  ry :: real
  rw :: real
  rh :: real

definition mkrect :: "real \<Rightarrow> real \<Rightarrow> real \<Rightarrow> real \<Rightarrow> rect" where
  "mkrect a b c d = \<lparr>rx = a, ry = b, rw = c, rh = d\<rparr>"

text \<open>
  \<^verbatim>\<open>return a.x < b.x + b.w && a.x + a.w > b.x && a.y < b.y + b.h && a.y + a.h > b.y;\<close>
\<close>

definition intersectsAABB :: "'a rect_scheme \<Rightarrow> 'b rect_scheme \<Rightarrow> bool" where
  "intersectsAABB a b =
     (rx a < rx b + rw b \<and> rx a + rw a > rx b \<and> ry a < ry b + rh b \<and> ry a + rh a > ry b)"

text \<open>
  \<open>resolveStaticCollision(mover, stat)\<close> mutates \<open>mover\<close>; the model returns the
  mover after the call.
\<close>

definition overlapX :: "'a rect_scheme \<Rightarrow> 'b rect_scheme \<Rightarrow> real" where
  "overlapX mover stat =
     min (rx mover + rw mover) (rx stat + rw stat) - max (rx mover) (rx stat)"

definition overlapY :: "'a rect_scheme \<Rightarrow> 'b rect_scheme \<Rightarrow> real" where
  "overlapY mover stat =
     min (ry mover + rh mover) (ry stat + rh stat) - max (ry mover) (ry stat)"

definition resolveStaticCollision :: "'a rect_scheme \<Rightarrow> 'b rect_scheme \<Rightarrow> 'a rect_scheme" where
  "resolveStaticCollision mover stat =
     (if \<not> intersectsAABB mover stat then mover
      else if overlapX mover stat < overlapY mover stat then
        (if rx mover < rx stat then mover\<lparr>rx := rx mover - overlapX mover stat\<rparr>
         else mover\<lparr>rx := rx mover + overlapX mover stat\<rparr>)
      else
        (if ry mover < ry stat then mover\<lparr>ry := ry mover - overlapY mover stat\<rparr>
         else mover\<lparr>ry := ry mover + overlapY mover stat\<rparr>))"

text \<open>\<^verbatim>\<open>return px >= r.x && px <= r.x + r.w && py >= r.y && py <= r.y + r.h;\<close>\<close>

definition pointInRect :: "real \<Rightarrow> real \<Rightarrow> 'a rect_scheme \<Rightarrow> bool" where
  "pointInRect px py r = (px \<ge> rx r \<and> px \<le> rx r + rw r \<and> py \<ge> ry r \<and> py \<le> ry r + rh r)"

text \<open>
  One pass of the loop body of \<open>segmentIntersectsRect\<close> for the coefficient pair
  \<open>(p[i], q[i])\<close> and the current window \<open>(t0, t1)\<close>: \<open>Outside\<close> is the
  \<open>return false\<close>, \<open>Window t0 t1\<close> the window the next pass starts from. The result is
  \<open>None\<close> when the quotient \<open>q[i] / p[i]\<close> is not a finite number.
\<close>

datatype clip = Outside | Window real real

definition clipStep :: "real \<Rightarrow> real \<Rightarrow> real \<Rightarrow> real \<Rightarrow> clip option" where
  "clipStep p q t0 t1 =
     (if p = 0 then (if q < 0 then Some Outside else Some (Window t0 t1))
      else (case jsdiv q p of
        None \<Rightarrow> None
      | Some t \<Rightarrow>
          if p < 0 then
            (if t > t1 then Some Outside
             else Some (Window (if t > t0 then t else t0) t1))
          else
            (if t < t0 then Some Outside
             else Some (Window t0 (if t < t1 then t else t1)))))"

text \<open>The loop \<open>for (let i = 0; i < 4; i++)\<close> over the arrays \<open>p\<close> and \<open>q\<close>.\<close>

fun clipLoop :: "(real \<times> real) list \<Rightarrow> real \<Rightarrow> real \<Rightarrow> bool option" where
  "clipLoop [] t0 t1 = Some True"
| "clipLoop ((p, q) # pqs) t0 t1 =
     (case clipStep p q t0 t1 of
        None \<Rightarrow> None
      | Some Outside \<Rightarrow> Some False
      | Some (Window t0' t1') \<Rightarrow> clipLoop pqs t0' t1')"

definition segmentIntersectsRect ::
  "real \<Rightarrow> real \<Rightarrow> real \<Rightarrow> real \<Rightarrow> 'a rect_scheme \<Rightarrow> bool option" where
  "segmentIntersectsRect x1 y1 x2 y2 r =
     (if pointInRect x1 y1 r \<or> pointInRect x2 y2 r then Some True
      else
        (let dx = x2 - x1; dy = y2 - y1;
             p = [- dx, dx, - dy, dy];
             q = [x1 - rx r, (rx r + rw r) - x1, y1 - ry r, (ry r + rh r) - y1]
         in clipLoop (zip p q) 0 1))"

text \<open>
  The wall list. \<open>W\<close> and \<open>H\<close> are the width and height of the canvas element, which
  the page supplies; they are parameters of everything that reads the walls or the
  arena bounds.
\<close>

definition walls :: "real \<Rightarrow> real \<Rightarrow> rect list" where
  "walls W H =
     [mkrect 0 0 W 16,
      mkrect 0 (H - 16) W 16,
      mkrect 0 0 16 H,
      mkrect (W - 16) 0 16 H,
      mkrect 140 80 520 18,
      mkrect 140 80 18 250,
      mkrect 320 160 18 260,
      mkrect 480 250 320 18,
      mkrect 650 120 18 210,
      mkrect 210 360 260 18,
      mkrect 760 360 18 120,
      mkrect 90 420 180 18]"

text \<open>
  \<^verbatim>\<open>for (const w of walls) { if (segmentIntersectsRect(ax, ay, bx, by, w)) return false; }
  return true;\<close>
\<close>

fun losLoop :: "rect list \<Rightarrow> real \<Rightarrow> real \<Rightarrow> real \<Rightarrow> real \<Rightarrow> bool option" where
  "losLoop [] ax ay bx by = Some True"
| "losLoop (w # ws) ax ay bx by =
     (case segmentIntersectsRect ax ay bx by w of
        None \<Rightarrow> None
      | Some True \<Rightarrow> Some False
      | Some False \<Rightarrow> losLoop ws ax ay bx by)"

definition hasLineOfSight :: "real \<Rightarrow> real \<Rightarrow> real \<Rightarrow> real \<Rightarrow> real \<Rightarrow> real \<Rightarrow> bool option" where
  "hasLineOfSight W H ax ay bx by = losLoop (walls W H) ax ay bx by"

section \<open>Double-precision arithmetic\<close>

text \<open>
  The number of binary digits of a natural number, and the exponent \<open>e\<close> of the leading
  binary digit of a real number \<open>x\<close> other than 0: \<open>2 ^ e \<le> |x| < 2 ^ (e + 1)\<close>.
\<close>

fun bits :: "nat \<Rightarrow> nat" where
  "bits n = (if n = 0 then 0 else Suc (bits (n div 2)))"

declare bits.simps [simp del]

definition expo :: "real \<Rightarrow> int" where
  "expo x = (if 1 \<le> \<bar>x\<bar> then int (bits (nat \<lfloor>\<bar>x\<bar>\<rfloor>)) - 1
             else - int (bits (nat (\<lceil>1 / \<bar>x\<bar>\<rceil> - 1))))"

text \<open>The power of two with an integer exponent.\<close>

definition pow2 :: "int \<Rightarrow> real" where
  "pow2 e = (if 0 \<le> e then 2 ^ nat e else 1 / 2 ^ nat (- e))"

text \<open>The integer nearest to \<open>m\<close>, the even one of the two when \<open>m\<close> lies half-way.\<close>

definition roundEven :: "real \<Rightarrow> int" where
  "roundEven m =
     (let f = \<lfloor>m\<rfloor>; r = m - of_int f
      in if r < 1 / 2 then f else if 1 / 2 < r then f + 1 else if even f then f else f + 1)"

text \<open>
  The double nearest to the real number \<open>x\<close>, as every arithmetic operation of the code
  rounds its exact result: 53 significant binary digits, ties to the even significand,
  gradual underflow below \<open>2 ^ (- 1022)\<close>. The result is \<open>None\<close> when the rounded value
  is not a finite double (the code would go on with Infinity).
\<close>

definition dbl :: "real \<Rightarrow> real option" where
  "dbl x =
     (if x = 0 then Some 0
      else
        (let e = max (expo x) (- 1022) - 52;
             r = of_int (roundEven (x / pow2 e)) * pow2 e
         in if expo r < 1024 then Some r else None))"

text \<open>
  The operations \<open>+\<close>, \<open>-\<close> and \<open>/\<close> of the code on two doubles. The comparisons,
  \<open>Math.min\<close>, \<open>Math.max\<close> and the unary minus are exact on doubles.
\<close>

definition fadd :: "real \<Rightarrow> real \<Rightarrow> real option" where
  "fadd a b = dbl (a + b)"

definition fsub :: "real \<Rightarrow> real \<Rightarrow> real option" where
  "fsub a b = dbl (a - b)"

definition fdiv :: "real \<Rightarrow> real \<Rightarrow> real option" where
  "fdiv a b = (if b = 0 then None else dbl (a / b))"

text \<open>
  \<open>intersectsAABB\<close>, \<open>resolveStaticCollision\<close>, \<open>pointInRect\<close>,
  \<open>segmentIntersectsRect\<close> and \<open>hasLineOfSight\<close> once more, statement by statement as
  above, with every sum, difference and quotient rounded. A sum that the short-circuit of
  \<open>&&\<close> would skip is computed all the same; this shows only when that sum is not
  finite.
\<close>

definition intersectsAABB64 :: "'a rect_scheme \<Rightarrow> 'b rect_scheme \<Rightarrow> bool option" where
  "intersectsAABB64 a b =
     do { bx2 \<leftarrow> fadd (rx b) (rw b);
          ax2 \<leftarrow> fadd (rx a) (rw a);
          by2 \<leftarrow> fadd (ry b) (rh b);
          ay2 \<leftarrow> fadd (ry a) (rh a);
          Some (rx a < bx2 \<and> ax2 > rx b \<and> ry a < by2 \<and> ay2 > ry b) }"

definition resolveStaticCollision64 :: "'a rect_scheme \<Rightarrow> 'b rect_scheme \<Rightarrow> 'a rect_scheme option" where
  "resolveStaticCollision64 mover stat =
     do { hit \<leftarrow> intersectsAABB64 mover stat;
          if \<not> hit then Some mover
          else
            do { ax2 \<leftarrow> fadd (rx mover) (rw mover);
                 ay2 \<leftarrow> fadd (ry mover) (rh mover);
                 bx2 \<leftarrow> fadd (rx stat) (rw stat);
                 by2 \<leftarrow> fadd (ry stat) (rh stat);
                 ox \<leftarrow> fsub (min ax2 bx2) (max (rx mover) (rx stat));
                 oy \<leftarrow> fsub (min ay2 by2) (max (ry mover) (ry stat));
                 if ox < oy then
                   (if rx mover < rx stat
                    then do { x \<leftarrow> fsub (rx mover) ox; Some (mover\<lparr>rx := x\<rparr>) }
                    else do { x \<leftarrow> fadd (rx mover) ox; Some (mover\<lparr>rx := x\<rparr>) })
                 else
                   (if ry mover < ry stat
                    then do { y \<leftarrow> fsub (ry mover) oy; Some (mover\<lparr>ry := y\<rparr>) }
                    else do { y \<leftarrow> fadd (ry mover) oy; Some (mover\<lparr>ry := y\<rparr>) }) } }"







section \<open>Entities and the state of a round\<close>

text \<open>\<open>player.shield\<close>; the field \<open>max\<close> is \<open>smax\<close> here.\<close>

record shield =
  active :: bool
  durability :: real
  smax :: real
  hitCost :: real
  regenPerSec :: real
  brokenUntil :: real
  breakCooldownMs :: real

record player = rect +
  speed :: real
  sprintMult :: real
  stamina :: real
  staminaMax :: real
  staminaDrainPerSec :: real
  staminaRegenPerSec :: real
  shield :: shield

record wander =
  wx :: real
  wy :: real
  until :: real

record seen =
  sx :: real
  sy :: real
  seenAt :: real

text \<open>
  The monster object of the path-finding variant of the game, whose fields include those
  of every other variant. \<open>lastTargetKey\<close> is \<open>null\<close> or the string
  \<open>c + "," + r\<close> of a cell; the code only compares it for equality, so it is the pair
  \<open>(c, r)\<close> here.
\<close>

record monster = rect +
  speedChase :: real
  speedPatrol :: real
  wander :: wander
  path :: "point list"
  pathIdx :: nat
  nextPathAt :: real
  lastTargetKey :: "(int \<times> int) option"
  lastSeen :: seen
  breathCooldownMs :: real
  breathDurationMs :: real
  breathActiveUntil :: real
  lastBreathAt :: real
  coneAngle :: real

record flame =
  fx :: real
  fy :: real
  fvx :: real
  fvy :: real
  fr :: real
  bornAt :: real
  ttlMs :: real

datatype runstate = Running | Won | Lost

text \<open>
  The module-level variables. \<open>status\<close> is \<open>statusEl.textContent\<close>, \<open>keys\<close> the
  set of keys held down. \<open>Math.random()\<close> is a stream of numbers the environment
  supplies: \<open>rnd\<close> is the stream and \<open>rcount\<close> the number of values drawn so far.
\<close>

record game =
  player :: player
  monster :: monster
  flames :: "flame list"
  startTs :: real
  lastTs :: real
  elapsed :: real
  state :: runstate
  status :: string
  keys :: "string set"
  rnd :: "nat \<Rightarrow> real"
  rcount :: nat

definition GOAL_SECONDS :: real where
  "GOAL_SECONDS = 30"

definition random :: "game \<Rightarrow> real \<times> game" where
  "random g = (rnd g (rcount g), g\<lparr>rcount := Suc (rcount g)\<rparr>)"

section \<open>Entity motion\<close>

text \<open>
  \<^verbatim>\<open>ent.x += vx * dt; ent.y += vy * dt;
  for (const w of walls) resolveStaticCollision(ent, w);
  ent.x = clamp(ent.x, 0, W - ent.w); ent.y = clamp(ent.y, 0, H - ent.h);\<close>
\<close>

definition moveEntity ::
  "real \<Rightarrow> real \<Rightarrow> 'a rect_scheme \<Rightarrow> real \<Rightarrow> real \<Rightarrow> real \<Rightarrow> 'a rect_scheme" where
  "moveEntity W H ent velx vely dt =
     (let e1 = ent\<lparr>rx := rx ent + velx * dt\<rparr>;
          e2 = e1\<lparr>ry := ry e1 + vely * dt\<rparr>;
          e3 = fold (\<lambda>w e. resolveStaticCollision e w) (walls W H) e2;
          e4 = e3\<lparr>rx := clamp (rx e3) 0 (W - rw e3)\<rparr>
      in e4\<lparr>ry := clamp (ry e4) 0 (H - rh e4)\<rparr>)"

section \<open>The player and the shield\<close>

definition shieldIsUp :: "real \<Rightarrow> player \<Rightarrow> bool" where
  "shieldIsUp now p =
     (if \<not> active (shield p) then False
      else if now < brokenUntil (shield p) then False
      else durability (shield p) > 0)"

text \<open>
  The direction \<open>(dx, dy)\<close> that \<open>updatePlayer\<close> reads from the keys:
  \<^verbatim>\<open>let dx = 0, dy = 0;
  if (keys.has('arrowleft') || keys.has('a')) dx -= 1;
  if (keys.has('arrowright') || keys.has('d')) dx += 1;
  if (keys.has('arrowup') || keys.has('w')) dy -= 1;
  if (keys.has('arrowdown') || keys.has('s')) dy += 1;\<close>
\<close>

definition moveIntent :: "string set \<Rightarrow> real \<times> real" where
  "moveIntent ks =
     (let dx0 = (if ''arrowleft'' \<in> ks \<or> ''a'' \<in> ks then 0 - 1 else 0);
          dx = (if ''arrowright'' \<in> ks \<or> ''d'' \<in> ks then dx0 + 1 else dx0);
          dy0 = (if ''arrowup'' \<in> ks \<or> ''w'' \<in> ks then 0 - 1 else 0);
          dy = (if ''arrowdown'' \<in> ks \<or> ''s'' \<in> ks then dy0 + 1 else dy0)
      in (dx, dy))"

definition updatePlayer :: "real \<Rightarrow> real \<Rightarrow> real \<Rightarrow> real \<Rightarrow> game \<Rightarrow> game option" where
  "updatePlayer W H dt now g =
     (let ks = keys g;
          p1 = (player g)\<lparr>shield := (shield (player g))\<lparr>active := ('' '' \<in> ks)\<rparr>\<rparr>;
          wantsSprint = (''shift'' \<in> ks);
          canSprint = (wantsSprint \<and> stamina p1 > 1)
      in case moveIntent ks of (dx, dy) \<Rightarrow>
        (let moving = (dx \<noteq> 0 \<or> dy \<noteq> 0);
             spd = (if moving \<and> canSprint then speed p1 * sprintMult p1 else speed p1);
             p2 = (if moving \<and> canSprint
                   then p1\<lparr>stamina := clamp (stamina p1 - staminaDrainPerSec p1 * dt) 0 (staminaMax p1)\<rparr>
                   else p1\<lparr>stamina := clamp (stamina p1 + staminaRegenPerSec p1 * dt) 0 (staminaMax p1)\<rparr>);
             p3 = (if now \<ge> brokenUntil (shield p2) \<and> \<not> shieldIsUp now p2
                   then p2\<lparr>shield := (shield p2)\<lparr>durability :=
                          clamp (durability (shield p2) + regenPerSec (shield p2) * dt) 0 (smax (shield p2))\<rparr>\<rparr>
                   else p2)
         in if moving then
              (case normv dx dy of
                 None \<Rightarrow> None
               | Some n \<Rightarrow> Some (g\<lparr>player := moveEntity W H p3 (ptx n * spd) (pty n * spd) dt\<rparr>))
            else Some (g\<lparr>player := p3\<rparr>)))"

section \<open>The flames\<close>

text \<open>
  The block of \<open>updateFlames\<close> that a raised shield runs on a hit:
  \<^verbatim>\<open>player.shield.durability = clamp(player.shield.durability - player.shield.hitCost, 0, player.shield.max);
  if (player.shield.durability <= 0.001) player.shield.brokenUntil = now + player.shield.breakCooldownMs;\<close>
\<close>

definition absorbHit :: "real \<Rightarrow> player \<Rightarrow> player" where
  "absorbHit now p =
     (let s1 = (shield p)\<lparr>durability := clamp (durability (shield p) - hitCost (shield p)) 0 (smax (shield p))\<rparr>;
          s2 = (if durability s1 \<le> 0.001 then s1\<lparr>brokenUntil := now + breakCooldownMs s1\<rparr> else s1)
      in p\<lparr>shield := s2\<rparr>)"

text \<open>
  The body of the loop of \<open>updateFlames\<close> for one particle: the particle as it stays in
  the list (\<open>None\<close> when it is spliced out) and the state after the pass.
\<close>

definition flameStep :: "real \<Rightarrow> real \<Rightarrow> real \<Rightarrow> real \<Rightarrow> flame \<Rightarrow> game \<Rightarrow> flame option \<times> game" where
  "flameStep W H dt now f0 g =
     (let f = f0\<lparr>fx := fx f0 + fvx f0 * dt, fy := fy f0 + fvy f0 * dt\<rparr> in
      if now - bornAt f > ttlMs f then (None, g)
      else
        (let frect = mkrect (fx f - fr f) (fy f - fr f) (fr f * 2) (fr f * 2) in
         if list_ex (\<lambda>w. intersectsAABB frect w) (walls W H) then (None, g)
         else
           (let pr = mkrect (rx (player g)) (ry (player g)) (rw (player g)) (rh (player g));
                hit = (pointInRect (fx f) (fy f) pr \<or> intersectsAABB frect pr)
            in if hit then
                 (if shieldIsUp now (player g)
                  then (None, g\<lparr>player := absorbHit now (player g)\<rparr>)
                  else (None, g\<lparr>state := Lost, status := ''burned (press R)''\<rparr>))
               else (Some f, g))))"

text \<open>
  The loop runs from the last particle to the first; the first argument is the list in
  that order, the result the surviving particles in their original order.
\<close>

fun flamesLoop :: "real \<Rightarrow> real \<Rightarrow> real \<Rightarrow> real \<Rightarrow> flame list \<Rightarrow> game \<Rightarrow> flame list \<times> game" where
  "flamesLoop W H dt now [] g = ([], g)"
| "flamesLoop W H dt now (f # rest) g =
     (case flameStep W H dt now f g of (kept, g1) \<Rightarrow>
        (case flamesLoop W H dt now rest g1 of (fs, g2) \<Rightarrow>
           (case kept of None \<Rightarrow> (fs, g2) | Some f' \<Rightarrow> (fs @ [f'], g2))))"

definition updateFlames :: "real \<Rightarrow> real \<Rightarrow> real \<Rightarrow> real \<Rightarrow> game \<Rightarrow> game" where
  "updateFlames W H dt now g =
     (case flamesLoop W H dt now (rev (flames g)) g of (fs, g') \<Rightarrow> g'\<lparr>flames := fs\<rparr>)"

section \<open>The monster\<close>

text \<open>
  \<open>pickWanderTarget(now)\<close>: at most 40 random candidates; the first argument counts the
  attempts that are left.
\<close>

fun pickWanderLoop :: "nat \<Rightarrow> real \<Rightarrow> real \<Rightarrow> real \<Rightarrow> game \<Rightarrow> game" where
  "pickWanderLoop 0 W H now g =
     g\<lparr>monster := (monster g)\<lparr>wander := \<lparr>wx = W / 2, wy = H / 2, until = now + 1000\<rparr>\<rparr>\<rparr>"
| "pickWanderLoop (Suc n) W H now g =
     (case random g of (r1, g1) \<Rightarrow>
      case random g1 of (r2, g2) \<Rightarrow>
        (let cx = 40 + r1 * (W - 80);
             cy = 40 + r2 * (H - 80);
             probe = mkrect (cx - 6) (cy - 6) 12 12
         in if \<not> list_ex (\<lambda>w. intersectsAABB probe w) (walls W H) then
              (case random g2 of (r3, g3) \<Rightarrow>
                 g3\<lparr>monster := (monster g3)\<lparr>wander :=
                      \<lparr>wx = cx, wy = cy, until = now + 1100 + r3 * 1300\<rparr>\<rparr>\<rparr>)
            else pickWanderLoop n W H now g2))"

definition pickWanderTarget :: "real \<Rightarrow> real \<Rightarrow> real \<Rightarrow> game \<Rightarrow> game" where
  "pickWanderTarget W H now g = pickWanderLoop 40 W H now g"

text \<open>\<open>Math.atan2(y, x)\<close>, by its cases.\<close>

definition atan2 :: "real \<Rightarrow> real \<Rightarrow> real" where
  "atan2 b a =
     (if a > 0 then arctan (b / a)
      else if a < 0 then (if b \<ge> 0 then arctan (b / a) + pi else arctan (b / a) - pi)
      else if b > 0 then pi / 2
      else if b < 0 then - (pi / 2)
      else 0)"

text \<open>One pass of the loop of \<open>emitConeFlames\<close>, for the index \<open>i\<close> of \<open>count = 9\<close>.\<close>

definition emitFlame :: "real \<Rightarrow> real \<Rightarrow> real \<Rightarrow> real \<Rightarrow> nat \<Rightarrow> game \<Rightarrow> game" where
  "emitFlame fromX fromY baseAng now i g =
     (let t = (real i / 8) * 2 - 1;
          ang = baseAng + t * (coneAngle (monster g) / 2)
      in case random g of (r1, g1) \<Rightarrow>
         case random g1 of (r2, g2) \<Rightarrow>
         case random g2 of (r3, g3) \<Rightarrow>
         case random g3 of (r4, g4) \<Rightarrow>
         case random g4 of (r5, g5) \<Rightarrow>
           (let jitter = (r1 - 0.5) * 0.10;
                a = ang + jitter;
                velx = cos a * 520 * (0.75 + r2 * 0.35);
                vely = sin a * 520 * (0.75 + r3 * 0.35)
            in g5\<lparr>flames := flames g5 @
                 [\<lparr>fx = fromX + cos a * 22, fy = fromY + sin a * 22, fvx = velx, fvy = vely,
                   fr = 4.5 + r4 * 2.5, bornAt = now, ttlMs = 520 + r5 * 260\<rparr>]\<rparr>))"

definition emitConeFlames :: "real \<Rightarrow> real \<Rightarrow> real \<Rightarrow> real \<Rightarrow> real \<Rightarrow> game \<Rightarrow> game" where
  "emitConeFlames fromX fromY dirX dirY now g =
     fold (emitFlame fromX fromY (atan2 dirY dirX) now) [0..<9] g"

text \<open>
  \<open>updateMonster(dt, now)\<close> of \<^verbatim>\<open>game.js\<close>. Its two branches on \<open>sees\<close> are
  \<open>monsterChase\<close> and \<open>monsterPatrol\<close>; \<open>mcx\<close>, \<open>mcy\<close>, \<open>pcx\<close>, \<open>pcy\<close> are the
  centres computed on entry.
\<close>

definition monsterChase ::
  "real \<Rightarrow> real \<Rightarrow> real \<Rightarrow> real \<Rightarrow> real \<Rightarrow> real \<Rightarrow> real \<Rightarrow> real \<Rightarrow> game \<Rightarrow> game option" where
  "monsterChase W H dt now mcx mcy pcx pcy g =
     (case normv (pcx - mcx) (pcy - mcy) of
        None \<Rightarrow> None
      | Some toP \<Rightarrow>
          (let dist = len (pcx - mcx) (pcy - mcy);
               m = monster g;
               m1 = (if dist > 110 then
                       moveEntity W H m (ptx toP * speedChase m) (pty toP * speedChase m) dt
                     else if dist < 75 then
                       moveEntity W H m (- ptx toP * (speedChase m * 0.55))
                         (- pty toP * (speedChase m * 0.55)) dt
                     else m);
               m2 = (if now - lastBreathAt m1 \<ge> breathCooldownMs m1
                     then m1\<lparr>lastBreathAt := now, breathActiveUntil := now + breathDurationMs m1\<rparr>
                     else m1);
               g1 = g\<lparr>monster := m2\<rparr>
           in Some (if now < breathActiveUntil m2
                    then emitConeFlames mcx mcy (ptx toP) (pty toP) now g1
                    else g1)))"

definition monsterPatrol ::
  "real \<Rightarrow> real \<Rightarrow> real \<Rightarrow> real \<Rightarrow> real \<Rightarrow> real \<Rightarrow> game \<Rightarrow> game option" where
  "monsterPatrol W H dt now mcx mcy g =
     (let g1 = (if now > until (wander (monster g)) then pickWanderTarget W H now g else g);
          m = monster g1
      in case normv (wx (wander m) - mcx) (wy (wander m) - mcy) of
           None \<Rightarrow> None
         | Some v \<Rightarrow>
             Some (g1\<lparr>monster := moveEntity W H m (ptx v * speedPatrol m) (pty v * speedPatrol m) dt\<rparr>))"

definition updateMonster :: "real \<Rightarrow> real \<Rightarrow> real \<Rightarrow> real \<Rightarrow> game \<Rightarrow> game option" where
  "updateMonster W H dt now g =
     (let pcx = rx (player g) + rw (player g) / 2;
          pcy = ry (player g) + rh (player g) / 2;
          mcx = rx (monster g) + rw (monster g) / 2;
          mcy = ry (monster g) + rh (monster g) / 2
      in case hasLineOfSight W H mcx mcy pcx pcy of
           None \<Rightarrow> None
         | Some sees \<Rightarrow>
             (case (if sees then monsterChase W H dt now mcx mcy pcx pcy g
                    else monsterPatrol W H dt now mcx mcy g) of
                None \<Rightarrow> None
              | Some g1 \<Rightarrow>
                  Some (if intersectsAABB (player g1) (monster g1)
                        then g1\<lparr>state := Lost, status := ''mauled (press R)''\<rparr>
                        else g1)))"

section \<open>The tick\<close>

text \<open>
  \<open>tick(ts)\<close> without its drawing and scheduling calls. \<open>!startTs\<close> holds when the
  variable is zero.
\<close>

definition tick :: "real \<Rightarrow> real \<Rightarrow> real \<Rightarrow> game \<Rightarrow> game option" where
  "tick W H ts g =
     (let g1 = (if startTs g = 0 then g\<lparr>startTs := ts\<rparr> else g);
          g2 = (if lastTs g1 = 0 then g1\<lparr>lastTs := ts\<rparr> else g1);
          dt = min 0.033 ((ts - lastTs g2) / 1000);
          g3 = g2\<lparr>lastTs := ts\<rparr>
      in if state g3 = Running then
           (let g4 = g3\<lparr>elapsed := (ts - startTs g3) / 1000\<rparr> in
            case updatePlayer W H dt ts g4 of
              None \<Rightarrow> None
            | Some g5 \<Rightarrow>
                (case updateMonster W H dt ts g5 of
                   None \<Rightarrow> None
                 | Some g6 \<Rightarrow>
                     (let g7 = updateFlames W H dt ts g6 in
                      Some (if elapsed g7 \<ge> GOAL_SECONDS
                            then g7\<lparr>state := Won, status := ''won (press R)''\<rparr>
                            else g7))))
         else Some g3)"

section \<open>The navigation grid\<close>

text \<open>
  The grid of the path-finding variant: \<open>NAV_CELL = 22\<close>, the constants
  \<open>NAV_COLS = Math.floor(W / NAV_CELL)\<close> and \<open>NAV_ROWS = Math.floor(H / NAV_CELL)\<close>, and
  the array \<open>navBlocked\<close> (a \<open>Uint8Array\<close> holding 0 or 1, a list of booleans here).
  The functions of the grid read these three module-level values; here they take them as
  the record \<open>nav\<close>. A cell \<open>{c, r}\<close> is the pair \<open>(c, r)\<close>.
\<close>

definition NAV_CELL :: real where
  "NAV_CELL = 22"

record nav =
  NAV_COLS :: int
  NAV_ROWS :: int
  navBlocked :: "bool list"

type_synonym cell = "int \<times> int"

text \<open>
  Reading and writing a typed array at an integer index. A typed array ignores a write
  outside its range. The model reads only at indices of cells in bounds.
\<close>

definition rd :: "'a list \<Rightarrow> int \<Rightarrow> 'a" where
  "rd a i = a ! nat i"

definition wr :: "'a list \<Rightarrow> int \<Rightarrow> 'a \<Rightarrow> 'a list" where
  "wr a i v = (if 0 \<le> i \<and> i < int (length a) then a[nat i := v] else a)"

definition navIdx :: "nav \<Rightarrow> int \<Rightarrow> int \<Rightarrow> int" where
  "navIdx nv c r = r * NAV_COLS nv + c"

definition inBounds :: "nav \<Rightarrow> int \<Rightarrow> int \<Rightarrow> bool" where
  "inBounds nv c r = (c \<ge> 0 \<and> r \<ge> 0 \<and> c < NAV_COLS nv \<and> r < NAV_ROWS nv)"

text \<open>
  \<open>rebuildNavGrid()\<close>: every cell whose probe square meets a wall inflated by 10 is
  blocked. The rows are written one after the other, each from column 0 on, which is the
  order of \<open>navIdx\<close>.
\<close>

definition cellProbeBlocked :: "real \<Rightarrow> real \<Rightarrow> int \<Rightarrow> int \<Rightarrow> bool" where
  "cellProbeBlocked W H c r =
     (let inflate = 10;
          inflatedWalls = map (\<lambda>w. mkrect (rx w - inflate) (ry w - inflate)
                                 (rw w + inflate * 2) (rh w + inflate * 2)) (walls W H);
          cx = real_of_int c * NAV_CELL + NAV_CELL / 2;
          cy = real_of_int r * NAV_CELL + NAV_CELL / 2;
          probe = mkrect (cx - 2) (cy - 2) 4 4
      in list_ex (\<lambda>w. intersectsAABB probe w) inflatedWalls)"

definition rebuildNavGrid :: "real \<Rightarrow> real \<Rightarrow> nav" where
  "rebuildNavGrid W H =
     (let cols = \<lfloor>W / NAV_CELL\<rfloor>; rows = \<lfloor>H / NAV_CELL\<rfloor> in
      \<lparr>NAV_COLS = cols, NAV_ROWS = rows,
       navBlocked = concat (map (\<lambda>r. map (\<lambda>c. cellProbeBlocked W H c r) [0..cols - 1]) [0..rows - 1])\<rparr>)"

definition pointToCell :: "nav \<Rightarrow> real \<Rightarrow> real \<Rightarrow> cell" where
  "pointToCell nv px py =
     (clamp \<lfloor>px / NAV_CELL\<rfloor> 0 (NAV_COLS nv - 1), clamp \<lfloor>py / NAV_CELL\<rfloor> 0 (NAV_ROWS nv - 1))"

definition cellCenter :: "cell \<Rightarrow> point" where
  "cellCenter cl =
     \<lparr>ptx = real_of_int (fst cl) * NAV_CELL + NAV_CELL / 2,
      pty = real_of_int (snd cl) * NAV_CELL + NAV_CELL / 2\<rparr>"

definition isBlocked :: "nav \<Rightarrow> cell \<Rightarrow> bool" where
  "isBlocked nv cl =
     (if \<not> inBounds nv (fst cl) (snd cl) then True
      else rd (navBlocked nv) (navIdx nv (fst cl) (snd cl)))"

section \<open>The path finder\<close>

text \<open>
  The typed arrays and the open list of one call of \<open>aStar\<close>. The scores are the
  integers the search writes (path lengths, Manhattan distances and the initial
  \<open>1e9\<close>), which the \<open>Float32Array\<close>s of the code hold exactly on a grid of this size;
  the flags of the \<open>Uint8Array\<close>s are booleans.
\<close>

record search =
  gScore :: "int list"
  fScore :: "int list"
  cameFrom :: "int list"
  inOpen :: "bool list"
  inClosed :: "bool list"
  openList :: "int list"

text \<open>\<open>h(c, r)\<close>, the Manhattan distance to the goal.\<close>

definition manhattan :: "cell \<Rightarrow> int \<Rightarrow> int \<Rightarrow> int" where
  "manhattan goal c r = \<bar>c - fst goal\<bar> + \<bar>r - snd goal\<bar>"

definition dirs :: "(int \<times> int) list" where
  "dirs = [(1, 0), (-1, 0), (0, 1), (0, -1)]"

text \<open>
  The scan for the best entry of the open list:
  \<^verbatim>\<open>let bestI = 0;
  for (let i = 1; i < openList.length; i++)
    if (fScore[openList[i]] < fScore[openList[bestI]]) bestI = i;\<close>
\<close>

fun bestScan :: "int list \<Rightarrow> int list \<Rightarrow> nat \<Rightarrow> nat list \<Rightarrow> nat" where
  "bestScan fs ol bestI [] = bestI"
| "bestScan fs ol bestI (i # rest) =
     bestScan fs ol (if rd fs (ol ! i) < rd fs (ol ! bestI) then i else bestI) rest"

text \<open>
  The reconstruction loop \<^verbatim>\<open>while (cur !== -1) { ...; path.push({ c, r }); cur = cameFrom[cur]; }\<close>.
  It ends only when the chain of \<open>cameFrom\<close> reaches \<open>-1\<close>: the result is \<open>None\<close> when
  it does not (or when the row \<open>Math.floor(cur / NAV_COLS)\<close> is not a number).
\<close>

partial_function (option) reconstruct :: "nav \<Rightarrow> int list \<Rightarrow> int \<Rightarrow> cell list \<Rightarrow> cell list option" where
  "reconstruct nv cf cur acc =
     (if cur = - 1 then Some acc
      else if NAV_COLS nv = 0 then None
      else
        (let r = cur div NAV_COLS nv;
             c = cur - r * NAV_COLS nv
         in reconstruct nv cf (rd cf cur) (acc @ [(c, r)])))"

text \<open>The body of \<open>for (const d of dirs)\<close> for the cell \<open>(cc, cr)\<close> of \<open>currentIdx\<close>.\<close>

definition relax :: "nav \<Rightarrow> cell \<Rightarrow> int \<Rightarrow> int \<Rightarrow> int \<Rightarrow> int \<times> int \<Rightarrow> search \<Rightarrow> search" where
  "relax nv goal currentIdx cc cr d s =
     (let nc = cc + fst d; nr = cr + snd d in
      if \<not> inBounds nv nc nr then s
      else if isBlocked nv (nc, nr) then s
      else
        (let ni = navIdx nv nc nr in
         if rd (inClosed s) ni then s
         else
           (let tentative = rd (gScore s) currentIdx + 1 in
            if tentative < rd (gScore s) ni then
              (let s1 = s\<lparr>cameFrom := wr (cameFrom s) ni currentIdx,
                          gScore := wr (gScore s) ni tentative,
                          fScore := wr (fScore s) ni (tentative + manhattan goal nc nr)\<rparr>
               in if \<not> rd (inOpen s1) ni
                  then s1\<lparr>openList := openList s1 @ [ni], inOpen := wr (inOpen s1) ni True\<rparr>
                  else s1)
            else s)))"

text \<open>
  The loop \<open>while (openList.length)\<close>. The result \<open>Some None\<close> is the \<open>return null\<close>
  after the loop, \<open>Some (Some path)\<close> a returned path, and \<open>None\<close> a loop that does not
  end (or a row \<open>Math.floor(currentIdx / NAV_COLS)\<close> that is not a number).
\<close>

partial_function (option) aStarLoop :: "nav \<Rightarrow> cell \<Rightarrow> search \<Rightarrow> cell list option option" where
  "aStarLoop nv goal s =
     (if openList s = [] then Some None
      else
        (let bestI = bestScan (fScore s) (openList s) 0 [1..<length (openList s)];
             currentIdx = openList s ! bestI;
             s1 = s\<lparr>openList := take bestI (openList s) @ drop (Suc bestI) (openList s),
                     inOpen := wr (inOpen s) currentIdx False,
                     inClosed := wr (inClosed s) currentIdx True\<rparr>
         in if currentIdx = navIdx nv (fst goal) (snd goal) then
              (case reconstruct nv (cameFrom s1) currentIdx [] of
                 None \<Rightarrow> None
               | Some cells \<Rightarrow> Some (Some (rev cells)))
            else if NAV_COLS nv = 0 then None
            else
              (let cr = currentIdx div NAV_COLS nv;
                   cc = currentIdx - cr * NAV_COLS nv
               in aStarLoop nv goal (fold (relax nv goal currentIdx cc cr) dirs s1))))"

definition aStarInit :: "nav \<Rightarrow> cell \<Rightarrow> cell \<Rightarrow> search" where
  "aStarInit nv start goal =
     (let n = nat (NAV_COLS nv * NAV_ROWS nv);
          startIdx = navIdx nv (fst start) (snd start)
      in \<lparr>gScore = wr (replicate n 1000000000) startIdx 0,
          fScore = wr (replicate n 1000000000) startIdx (manhattan goal (fst start) (snd start)),
          cameFrom = replicate n (- 1),
          inOpen = wr (replicate n False) startIdx True,
          inClosed = replicate n False,
          openList = [startIdx]\<rparr>)"

definition aStar :: "nav \<Rightarrow> cell \<Rightarrow> cell \<Rightarrow> cell list option option" where
  "aStar nv start goal = aStarLoop nv goal (aStarInit nv start goal)"

text \<open>
  The search of \<open>buildPathTo\<close> for a free cell near a blocked target cell:
  \<^verbatim>\<open>for (let rad = 1; rad <= 4 && !found; rad++)
    for (let dr = -rad; dr <= rad; dr++) {
      for (let dc = -rad; dc <= rad; dc++) {
        const c = tc.c + dc; const r = tc.r + dr;
        if (!inBounds(c, r)) continue;
        if (!isBlocked(c, r)) { found = { c, r }; break; }
      }
      if (found) break;
    }\<close>
\<close>

fun scanRow :: "nav \<Rightarrow> cell \<Rightarrow> int \<Rightarrow> int list \<Rightarrow> cell option" where
  "scanRow nv tc dr [] = None"
| "scanRow nv tc dr (dc # dcs) =
     (let c = fst tc + dc; r = snd tc + dr in
      if \<not> inBounds nv c r then scanRow nv tc dr dcs
      else if \<not> isBlocked nv (c, r) then Some (c, r)
      else scanRow nv tc dr dcs)"

fun scanRows :: "nav \<Rightarrow> cell \<Rightarrow> int \<Rightarrow> int list \<Rightarrow> cell option" where
  "scanRows nv tc rad [] = None"
| "scanRows nv tc rad (dr # drs) =
     (case scanRow nv tc dr [- rad..rad] of
        Some found \<Rightarrow> Some found
      | None \<Rightarrow> scanRows nv tc rad drs)"

fun scanRings :: "nav \<Rightarrow> cell \<Rightarrow> int list \<Rightarrow> cell option" where
  "scanRings nv tc [] = None"
| "scanRings nv tc (rad # rads) =
     (case scanRows nv tc rad [- rad..rad] of
        Some found \<Rightarrow> Some found
      | None \<Rightarrow> scanRings nv tc rads)"

definition findFree :: "nav \<Rightarrow> cell \<Rightarrow> cell option" where
  "findFree nv tc = scanRings nv tc [1..4]"

text \<open>The target cell \<open>tc\<close> of \<open>buildPathTo\<close> after the block that nudges it.\<close>

definition retarget :: "nav \<Rightarrow> cell \<Rightarrow> cell" where
  "retarget nv tc =
     (if isBlocked nv tc then (case findFree nv tc of Some found \<Rightarrow> found | None \<Rightarrow> tc)
      else tc)"

text \<open>
  \<open>buildPathTo(targetX, targetY)\<close>: the returned boolean and the monster after the call;
  \<open>None\<close> when the search does not end.
\<close>

definition buildPathTo :: "nav \<Rightarrow> monster \<Rightarrow> real \<Rightarrow> real \<Rightarrow> (bool \<times> monster) option" where
  "buildPathTo nv m targetX targetY =
     (let mc = pointToCell nv (rx m + rw m / 2) (ry m + rh m / 2);
          tc = retarget nv (pointToCell nv targetX targetY);
          startBlocked = isBlocked nv mc;
          goalBlocked = isBlocked nv tc
      in if startBlocked \<or> goalBlocked then Some (False, m)
         else
           (case aStar nv mc tc of
              None \<Rightarrow> None
            | Some None \<Rightarrow> Some (False, m)
            | Some (Some cells) \<Rightarrow>
                if length cells < 2 then Some (False, m)
                else Some (True, m\<lparr>path := map cellCenter (tl cells), pathIdx := 0,
                                    lastTargetKey := Some tc\<rparr>)))"

section \<open>The objects at the start of a round\<close>

text \<open>
  The \<open>player\<close> and \<open>monster\<close> objects as the script creates them. The monster is the
  one of \<^verbatim>\<open>game.js\<close> with the path fields of the path-finding variant (in that
  variant \<open>speedChase\<close> is 235).
\<close>

definition player0 :: player where
  "player0 = \<lparr>rx = 60, ry = 60, rw = 18, rh = 26, speed = 210, sprintMult = 1.65,
     stamina = 100, staminaMax = 100, staminaDrainPerSec = 38, staminaRegenPerSec = 22,
     shield = \<lparr>active = False, durability = 100, smax = 100, hitCost = 26, regenPerSec = 14,
                brokenUntil = 0, breakCooldownMs = 2400\<rparr>\<rparr>"

definition monster0 :: "real \<Rightarrow> real \<Rightarrow> monster" where
  "monster0 W H = \<lparr>rx = W - 110, ry = H - 100, rw = 34, rh = 24, speedChase = 220, speedPatrol = 125,
     wander = \<lparr>wx = W / 2, wy = H / 2, until = 0\<rparr>,
     path = [], pathIdx = 0, nextPathAt = 0, lastTargetKey = None,
     lastSeen = \<lparr>sx = W / 2, sy = H / 2, seenAt = 0\<rparr>,
     breathCooldownMs = 900, breathDurationMs = 700, breathActiveUntil = 0, lastBreathAt = 0,
     coneAngle = pi / 5.5\<rparr>"

section \<open>Notions the properties are stated with\<close>

text \<open>A point of the closed segment from \<open>(x1, y1)\<close> to \<open>(x2, y2)\<close> lies in the rectangle.\<close>

definition onSegment :: "real \<Rightarrow> real \<Rightarrow> real \<Rightarrow> real \<Rightarrow> 'a rect_scheme \<Rightarrow> bool" where
  "onSegment x1 y1 x2 y2 r =
     (\<exists>t. 0 \<le> t \<and> t \<le> 1 \<and> pointInRect (x1 + t * (x2 - x1)) (y1 + t * (y2 - y1)) r)"

text \<open>The bounding box of an entity lies inside the arena of width \<open>W\<close> and height \<open>H\<close>.\<close>

definition insideArena :: "real \<Rightarrow> real \<Rightarrow> 'a rect_scheme \<Rightarrow> bool" where
  "insideArena W H e = (0 \<le> rx e \<and> rx e + rw e \<le> W \<and> 0 \<le> ry e \<and> ry e + rh e \<le> H)"

text \<open>A sequence of motion updates \<open>(vx, vy, dt)\<close> of one entity.\<close>

fun moveAll :: "real \<Rightarrow> real \<Rightarrow> (real \<times> real \<times> real) list \<Rightarrow> 'a rect_scheme \<Rightarrow> 'a rect_scheme" where
  "moveAll W H [] e = e"
| "moveAll W H ((velx, vely, dt) # steps) e = moveAll W H steps (moveEntity W H e velx vely dt)"

text \<open>
  On one axis, the mover's interval \<open>[a1, a2]\<close> sticks out of the obstacle's interval
  \<open>[b1, b2]\<close> on the side the mover is pushed to, and not on the other.
\<close>

definition straddlesOneEdge :: "real \<Rightarrow> real \<Rightarrow> real \<Rightarrow> real \<Rightarrow> bool" where
  "straddlesOneEdge a1 a2 b1 b2 = ((a1 < b1 \<and> a2 \<le> b2) \<or> (a1 \<ge> b1 \<and> a2 \<ge> b2))"

text \<open>
  The real number \<open>v\<close> is a double: rounding leaves it as it is. An operation whose exact
  result is a double is not rounded.
\<close>

definition exact :: "real \<Rightarrow> bool" where
  "exact v = (dbl v = Some v)"


text \<open>
  No operation of \<open>resolveStaticCollision(mover, stat)\<close> and of the test
  \<open>intersectsAABB(mover, stat)\<close> after it is rounded: the far edges, the two overlaps,
  the coordinates of the mover after the call and its far edges then are doubles.
\<close>

definition resolveExact :: "'a rect_scheme \<Rightarrow> 'b rect_scheme \<Rightarrow> bool" where
  "resolveExact mover stat =
     (exact (rx mover + rw mover) \<and> exact (ry mover + rh mover) \<and>
      exact (rx stat + rw stat) \<and> exact (ry stat + rh stat) \<and>
      exact (overlapX mover stat) \<and> exact (overlapY mover stat) \<and>
      exact (rx (resolveStaticCollision mover stat)) \<and>
      exact (ry (resolveStaticCollision mover stat)) \<and>
      exact (rx (resolveStaticCollision mover stat) + rw mover) \<and>
      exact (ry (resolveStaticCollision mover stat) + rh mover))"

text \<open>
  Successive hits that the shield absorbs, at the given times, with nothing between them;
  and the condition that the shield is up at each of these hits.
\<close>

fun absorbHits :: "real list \<Rightarrow> player \<Rightarrow> player" where
  "absorbHits [] p = p"
| "absorbHits (t # ts) p = absorbHits ts (absorbHit t p)"

fun raisedAtEach :: "real list \<Rightarrow> player \<Rightarrow> bool" where
  "raisedAtEach [] p = True"
| "raisedAtEach (t # ts) p = (shieldIsUp t p \<and> raisedAtEach ts (absorbHit t p))"

text \<open>
  A particle hits the player in a call of \<open>updateFlames\<close>: after its move it has not
  expired, its square touches no wall, and it touches the rectangle of the player. These
  are the tests of the loop body before it asks for the shield.
\<close>

definition flameHits :: "real \<Rightarrow> real \<Rightarrow> real \<Rightarrow> real \<Rightarrow> player \<Rightarrow> flame \<Rightarrow> bool" where
  "flameHits W H dt now p f0 =
     (let f = f0\<lparr>fx := fx f0 + fvx f0 * dt, fy := fy f0 + fvy f0 * dt\<rparr>;
          frect = mkrect (fx f - fr f) (fy f - fr f) (fr f * 2) (fr f * 2);
          pr = mkrect (rx p) (ry p) (rw p) (rh p)
      in \<not> now - bornAt f > ttlMs f \<and>
         \<not> list_ex (\<lambda>w. intersectsAABB frect w) (walls W H) \<and>
         (pointInRect (fx f) (fy f) pr \<or> intersectsAABB frect pr))"

text \<open>
  Successive calls of \<open>updateFlames\<close>, each with the \<open>dt\<close> and \<open>now\<close> of its tick and
  nothing between them, and the times of the hits in these calls, one entry for each
  particle that hits the player.
\<close>

fun flameCalls :: "real \<Rightarrow> real \<Rightarrow> (real \<times> real) list \<Rightarrow> game \<Rightarrow> game" where
  "flameCalls W H [] g = g"
| "flameCalls W H ((dt, now) # cs) g = flameCalls W H cs (updateFlames W H dt now g)"

fun hitTimes :: "real \<Rightarrow> real \<Rightarrow> (real \<times> real) list \<Rightarrow> game \<Rightarrow> real list" where
  "hitTimes W H [] g = []"
| "hitTimes W H ((dt, now) # cs) g =
     replicate (length (filter (flameHits W H dt now (player g)) (flames g))) now
       @ hitTimes W H cs (updateFlames W H dt now g)"

text \<open>The player with the shield key held (\<open>True\<close>) or released, as \<open>updatePlayer\<close> sets it.\<close>

definition holdSpace :: "bool \<Rightarrow> player \<Rightarrow> player" where
  "holdSpace a p = p\<lparr>shield := (shield p)\<lparr>active := a\<rparr>\<rparr>"

text \<open>Successive calls of \<open>updatePlayer\<close>, each with the keys held, \<open>dt\<close> and \<open>now\<close> of its tick.\<close>

fun playerTicks :: "real \<Rightarrow> real \<Rightarrow> (string set \<times> real \<times> real) list \<Rightarrow> game \<Rightarrow> game option" where
  "playerTicks W H [] g = Some g"
| "playerTicks W H ((ks, dt, now) # rest) g =
     (case updatePlayer W H dt now (g\<lparr>keys := ks\<rparr>) of
        None \<Rightarrow> None
      | Some g' \<Rightarrow> playerTicks W H rest g')"

text \<open>
  The radius of the ring around \<open>b\<close> that holds \<open>a\<close>: the larger of the column and the
  row distance.
\<close>

definition cheb :: "cell \<Rightarrow> cell \<Rightarrow> int" where
  "cheb a b = max \<bar>fst a - fst b\<bar> \<bar>snd a - snd b\<bar>"

text \<open>The square of the Euclidean distance between two cells, in cells.\<close>

definition cellDist2 :: "cell \<Rightarrow> cell \<Rightarrow> int" where
  "cellDist2 a b = (fst a - fst b) * (fst a - fst b) + (snd a - snd b) * (snd a - snd b)"

text \<open>Two cells differ by exactly one in exactly one of column and row.\<close>

definition adjacent4 :: "cell \<Rightarrow> cell \<Rightarrow> bool" where
  "adjacent4 a b = ((\<bar>fst a - fst b\<bar> = 1 \<and> snd a = snd b) \<or> (fst a = fst b \<and> \<bar>snd a - snd b\<bar> = 1))"

text \<open>Every two consecutive cells of a list are 4-adjacent.\<close>

fun stepwise :: "cell list \<Rightarrow> bool" where
  "stepwise (a # b # rest) = (adjacent4 a b \<and> stepwise (b # rest))"
| "stepwise rest = True"

text \<open>The cell of a waypoint.\<close>

definition waypointCell :: "nav \<Rightarrow> point \<Rightarrow> cell" where
  "waypointCell nv p = pointToCell nv (ptx p) (pty p)"

text \<open>
  The cell of an array index, as the search computes it, and the invariant of the search:
  every \<open>cameFrom\<close> entry that is set links a free cell to a 4-adjacent cell of the grid,
  and the open list holds indices of the grid.
\<close>

definition cellOf :: "nav \<Rightarrow> int \<Rightarrow> cell" where
  "cellOf nv n = (n - (n div NAV_COLS nv) * NAV_COLS nv, n div NAV_COLS nv)"

definition cellCount :: "nav \<Rightarrow> int" where
  "cellCount nv = NAV_COLS nv * NAV_ROWS nv"

definition linksOK :: "nav \<Rightarrow> int list \<Rightarrow> bool" where
  "linksOK nv cf = (\<forall>n. 0 \<le> n \<and> n < cellCount nv \<longrightarrow> rd cf n \<noteq> - 1 \<longrightarrow>
      (0 \<le> rd cf n \<and> rd cf n < cellCount nv \<and> \<not> isBlocked nv (cellOf nv n) \<and>
       adjacent4 (cellOf nv (rd cf n)) (cellOf nv n)))"

definition searchInv :: "nav \<Rightarrow> search \<Rightarrow> bool" where
  "searchInv nv s = (linksOK nv (cameFrom s) \<and> (\<forall>i \<in> set (openList s). 0 \<le> i \<and> i < cellCount nv))"

text \<open>
  The shape of the search state that makes the search end: the arrays have one entry per
  cell, the open list has no duplicate and holds cells that are marked open and not
  closed, the scores \<open>g\<close> are not negative, and \<open>g\<close> falls strictly along every
  \<open>cameFrom\<close> link. The number of cells not yet closed falls with every pass of the loop.
\<close>

definition searchWf :: "nav \<Rightarrow> search \<Rightarrow> bool" where
  "searchWf nv s =
     (length (gScore s) = nat (cellCount nv) \<and> length (cameFrom s) = nat (cellCount nv) \<and>
      length (inOpen s) = nat (cellCount nv) \<and> length (inClosed s) = nat (cellCount nv) \<and>
      distinct (openList s) \<and>
      (\<forall>i \<in> set (openList s). 0 \<le> i \<and> i < cellCount nv \<and> rd (inOpen s) i \<and> \<not> rd (inClosed s) i) \<and>
      (\<forall>n. 0 \<le> n \<and> n < cellCount nv \<longrightarrow> 0 \<le> rd (gScore s) n) \<and>
      (\<forall>n. 0 \<le> n \<and> n < cellCount nv \<longrightarrow> rd (cameFrom s) n \<noteq> - 1 \<longrightarrow>
           rd (gScore s) (rd (cameFrom s) n) < rd (gScore s) n))"

definition openCount :: "nav \<Rightarrow> search \<Rightarrow> nat" where
  "openCount nv s = card {i. 0 \<le> i \<and> i < cellCount nv \<and> \<not> rd (inClosed s) i}"

text \<open>
  A chain of cells as the reconstruction collects it, from the goal backwards: every cell
  but the last is free and 4-adjacent to the next.
\<close>

fun chainOK :: "nav \<Rightarrow> cell list \<Rightarrow> bool" where
  "chainOK nv (a # b # rest) = (\<not> isBlocked nv a \<and> adjacent4 b a \<and> chainOK nv (b # rest))"
| "chainOK nv rest = True"

definition goodPath :: "nav \<Rightarrow> cell \<Rightarrow> cell list \<Rightarrow> bool" where
  "goodPath nv goal cells = (\<exists>chain. cells = rev chain \<and> chain \<noteq> [] \<and> hd chain = goal \<and> chainOK nv chain)"

section \<open>Concrete arenas and states\<close>

text \<open>The grid of a canvas of 900 by 560 pixels, and the grid of one of 44 by 44.\<close>

definition arena :: nav where
  "arena = rebuildNavGrid 900 560"

definition tinyArena :: nav where
  "tinyArena = rebuildNavGrid 44 44"

text \<open>
  A running round, 29.99 seconds after its start: the player one pixel to the left of the
  monster, walking right; the monster between two breaths.
\<close>

definition contactAtGoal :: game where
  "contactAtGoal =
     \<lparr>player = player0\<lparr>rx := 40, ry := 100\<rparr>,
      monster = (monster0 900 560)\<lparr>rx := 59, ry := 101, lastBreathAt := 30210, breathActiveUntil := 30910\<rparr>,
      flames = [], startTs = 1000, lastTs = 30990, elapsed = 29.99,
      state = Running, status = ''running'', keys = {''d''},
      rnd = (\<lambda>n. 0), rcount = 0\<rparr>"

text \<open>That round after \<open>updatePlayer\<close> and after \<open>updateMonster\<close> of the tick at 31010.\<close>

definition afterPlayer :: game where
  "afterPlayer = contactAtGoal\<lparr>lastTs := 31010, elapsed := 30.01, player := player0\<lparr>rx := 44.2, ry := 100\<rparr>\<rparr>"

definition afterMonster :: game where
  "afterMonster = afterPlayer\<lparr>monster := (monster afterPlayer)\<lparr>rx := 61.42\<rparr>,
      state := Lost, status := ''mauled (press R)''\<rparr>"

text \<open>
  A round with the shield key held and five particles: two on the player, two that reach
  the player in the second tick, and one far from the player.
\<close>

definition underFire :: game where
  "underFire =
     \<lparr>player = holdSpace True player0, monster = monster0 900 560,
      flames = [\<lparr>fx = 70, fy = 70, fvx = 0, fvy = 0, fr = 4, bornAt = 0, ttlMs = 1000\<rparr>,
                \<lparr>fx = 100, fy = 70, fvx = - 500, fvy = 0, fr = 4, bornAt = 0, ttlMs = 1000\<rparr>,
                \<lparr>fx = 70, fy = 75, fvx = 0, fvy = 0, fr = 4, bornAt = 0, ttlMs = 1000\<rparr>,
                \<lparr>fx = 100, fy = 75, fvx = - 500, fvy = 0, fr = 4, bornAt = 0, ttlMs = 1000\<rparr>,
                \<lparr>fx = 300, fy = 100, fvx = 0, fvy = 0, fr = 4, bornAt = 0, ttlMs = 1000\<rparr>],
      startTs = 1, lastTs = 80, elapsed = 0.079,
      state = Running, status = ''running'', keys = {'' ''},
      rnd = (\<lambda>n. 0), rcount = 0\<rparr>"

text \<open>A round in which the shield is broken until 5000 and the shield key is held.\<close>

definition brokenShield :: game where
  "brokenShield =
     \<lparr>player = player0\<lparr>shield := (shield player0)\<lparr>durability := 0, brokenUntil := 5000\<rparr>\<rparr>,
      monster = monster0 900 560,
      flames = [], startTs = 1000, lastTs = 2980, elapsed = 1.98,
      state = Running, status = ''running'', keys = {'' ''},
      rnd = (\<lambda>n. 0), rcount = 0\<rparr>"

section \<open>Geometry: lemmas\<close>

lemma normv_Some:
  "normv a b = Some \<lparr>ptx = a / (if hypot a b = 0 then 1 else hypot a b),
                      pty = b / (if hypot a b = 0 then 1 else hypot a b)\<rparr>"
  by (simp add: normv_def jsdiv_def Let_def)

lemma clipStep_total: "clipStep p q t0 t1 \<noteq> None"
  by (simp add: clipStep_def jsdiv_def)

lemma clipStep_Outside:
  assumes "t0 \<le> t1" "clipStep p q t0 t1 = Some Outside"
  shows "\<not> (\<exists>t. t0 \<le> t \<and> t \<le> t1 \<and> p * t \<le> q)"
proof
  assume "\<exists>t. t0 \<le> t \<and> t \<le> t1 \<and> p * t \<le> q"
  then obtain t where t: "t0 \<le> t" "t \<le> t1" "p * t \<le> q" by blast
  show False
  proof (cases "p = 0")
    case True
    with assms t show False by (simp add: clipStep_def split: if_splits)
  next
    case False
    show False
    proof (cases "p < 0")
      case True
      with assms have "q / p > t1" by (simp add: clipStep_def jsdiv_def split: if_splits)
      moreover from True t(3) have "q / p \<le> t" by (simp add: neg_divide_le_eq mult.commute)
      ultimately show False using t by linarith
    next
      case F2: False
      with False have pos: "p > 0" by simp
      with assms False have "q / p < t0" by (simp add: clipStep_def jsdiv_def split: if_splits)
      moreover from pos t(3) have "t \<le> q / p" by (simp add: pos_le_divide_eq mult.commute)
      ultimately show False using t by linarith
    qed
  qed
qed

lemma clipStep_Window:
  assumes "t0 \<le> t1" "clipStep p q t0 t1 = Some (Window a b)"
  shows "a \<le> b \<and> (\<forall>t. (a \<le> t \<and> t \<le> b) = (t0 \<le> t \<and> t \<le> t1 \<and> p * t \<le> q))"
proof (cases "p = 0")
  case True
  with assms show ?thesis by (auto simp add: clipStep_def split: if_splits)
next
  case False
  show ?thesis
  proof (cases "p < 0")
    case True
    have eq: "\<And>t. (p * t \<le> q) = (q / p \<le> t)" using True by (simp add: neg_divide_le_eq mult.commute)
    from assms True False show ?thesis
      by (auto simp add: clipStep_def jsdiv_def eq split: if_splits)
  next
    case F2: False
    with False have pos: "p > 0" by simp
    have eq: "\<And>t. (p * t \<le> q) = (t \<le> q / p)" using pos by (simp add: pos_le_divide_eq mult.commute)
    from assms pos False show ?thesis
      by (auto simp add: clipStep_def jsdiv_def eq split: if_splits)
  qed
qed

lemma clipLoop_char:
  "t0 \<le> t1 \<Longrightarrow>
   clipLoop pqs t0 t1 = Some (\<exists>t. t0 \<le> t \<and> t \<le> t1 \<and> (\<forall>(p, q) \<in> set pqs. p * t \<le> q))"
proof (induction pqs arbitrary: t0 t1)
  case Nil
  then show ?case by auto
next
  case (Cons pq pqs)
  obtain p q where pq: "pq = (p, q)" by (cases pq)
  show ?case
  proof (cases "clipStep p q t0 t1")
    case None
    then show ?thesis using clipStep_total by blast
  next
    case (Some c)
    show ?thesis
    proof (cases c)
      case Outside
      with Some Cons.prems clipStep_Outside[of t0 t1 p q]
      have "\<not> (\<exists>t. t0 \<le> t \<and> t \<le> t1 \<and> p * t \<le> q)" by simp
      then have "\<not> (\<exists>t. t0 \<le> t \<and> t \<le> t1 \<and> (\<forall>(p, q) \<in> set (pq # pqs). p * t \<le> q))"
        by (auto simp: pq)
      with Some Outside show ?thesis by (simp add: pq)
    next
      case (Window a b)
      with Some Cons.prems clipStep_Window[of t0 t1 p q a b]
      have ab: "a \<le> b" and iff: "\<And>t. (a \<le> t \<and> t \<le> b) = (t0 \<le> t \<and> t \<le> t1 \<and> p * t \<le> q)"
        by auto
      have "clipLoop (pq # pqs) t0 t1 = clipLoop pqs a b" using Some Window by (simp add: pq)
      also have "\<dots> = Some (\<exists>t. a \<le> t \<and> t \<le> b \<and> (\<forall>(p, q) \<in> set pqs. p * t \<le> q))"
        using Cons.IH[OF ab] .
      also have "(\<exists>t. a \<le> t \<and> t \<le> b \<and> (\<forall>(p, q) \<in> set pqs. p * t \<le> q))
        = (\<exists>t. t0 \<le> t \<and> t \<le> t1 \<and> (\<forall>(p, q) \<in> set (pq # pqs). p * t \<le> q))"
        using iff by (auto simp: pq)
      finally show ?thesis .
    qed
  qed
qed

lemma seg_char: "segmentIntersectsRect x1 y1 x2 y2 r = Some (onSegment x1 y1 x2 y2 r)"
proof (cases "pointInRect x1 y1 r \<or> pointInRect x2 y2 r")
  case True
  then have "onSegment x1 y1 x2 y2 r"
  proof
    assume "pointInRect x1 y1 r"
    then show ?thesis unfolding onSegment_def by (intro exI[of _ 0]) simp
  next
    assume "pointInRect x2 y2 r"
    then show ?thesis unfolding onSegment_def by (intro exI[of _ 1]) simp
  qed
  with True show ?thesis by (simp add: segmentIntersectsRect_def)
next
  case False
  have "(\<And>t. (\<forall>(p, q) \<in> set (zip [- (x2 - x1), x2 - x1, - (y2 - y1), y2 - y1]
            [x1 - rx r, (rx r + rw r) - x1, y1 - ry r, (ry r + rh r) - y1]). p * t \<le> q)
        = pointInRect (x1 + t * (x2 - x1)) (y1 + t * (y2 - y1)) r)"
    by (auto simp add: pointInRect_def algebra_simps)
  then show ?thesis using False
    by (simp add: segmentIntersectsRect_def Let_def clipLoop_char onSegment_def del: zip_Cons_Cons)
qed

lemma onSegment_sym: "onSegment x1 y1 x2 y2 r = onSegment x2 y2 x1 y1 r"
proof -
  have "\<And>a b c d. onSegment a b c d r \<Longrightarrow> onSegment c d a b r"
  proof -
    fix a b c d assume "onSegment a b c d r"
    then obtain t where t: "0 \<le> t" "t \<le> 1" "pointInRect (a + t * (c - a)) (b + t * (d - b)) r"
      unfolding onSegment_def by blast
    have "c + (1 - t) * (a - c) = a + t * (c - a)" "d + (1 - t) * (b - d) = b + t * (d - b)"
      by (simp_all add: algebra_simps)
    with t show "onSegment c d a b r" unfolding onSegment_def
      by (intro exI[of _ "1 - t"]) simp
  qed
  then show ?thesis by blast
qed

lemma losLoop_sym: "losLoop ws ax ay bx by = losLoop ws bx by ax ay"
  by (induction ws) (auto simp add: seg_char onSegment_sym[of ax ay bx "by"] split: bool.splits)

lemma hypot_axis: "hypot a 0 = \<bar>a\<bar>"
  by (simp add: hypot_def)

text \<open>
  Claim C7. \<open>segmentIntersectsRect\<close> is total on degenerate input: for a coefficient
  \<open>p[i]\<close> of zero the pass divides nothing and returns false only when \<open>q[i]\<close> is
  negative; every call returns a boolean and never a non-finite quotient; a segment of
  length zero is reported as intersecting exactly when its point lies in the rectangle.
  \<open>norm\<close> never divides by zero, \<open>norm(0, 0)\<close> is the zero vector, and a velocity
  built from it displaces nothing.
\<close>

theorem degenerate_geometry_safe:
  "clipStep 0 q t0 t1 = Some (if q < 0 then Outside else Window t0 t1) \<and>
   (\<exists>b. segmentIntersectsRect x1 y1 x2 y2 r = Some b) \<and>
   segmentIntersectsRect x1 y1 x1 y1 r = Some (pointInRect x1 y1 r) \<and>
   (\<exists>n. normv a b = Some n) \<and>
   normv 0 0 = Some \<lparr>ptx = 0, pty = 0\<rparr> \<and>
   (\<exists>n. normv 0 0 = Some n \<and> ex + ptx n * spd * dt = ex \<and> ey + pty n * spd * dt = ey)"
proof -
  have "onSegment x1 y1 x1 y1 r = pointInRect x1 y1 r"
    by (auto simp add: onSegment_def intro: exI[of _ 0])
  then show ?thesis
    by (simp add: seg_char normv_Some clipStep_def hypot_def)
qed

theorem degenerate_geometry_safe_witness:
  "segmentIntersectsRect 5 5 5 5 (mkrect 0 0 10 10) = Some True \<and>
   segmentIntersectsRect 50 5 50 5 (mkrect 0 0 10 10) = Some False \<and>
   normv 0 0 = Some \<lparr>ptx = 0, pty = 0\<rparr>"
  using degenerate_geometry_safe[of 0 0 1 5 5 5 5 "mkrect 0 0 10 10" 0 0 0 0 0 0]
    degenerate_geometry_safe[of 0 0 1 50 5 50 5 "mkrect 0 0 10 10" 0 0 0 0 0 0]
  by (simp add: pointInRect_def mkrect_def)

text \<open>
  Over the real numbers the line of sight does not depend on the order of its two points.
\<close>

lemma hasLineOfSight_real_symmetric:
  "\<exists>b. hasLineOfSight W H ax ay bx by = Some b \<and> hasLineOfSight W H bx by ax ay = Some b"
proof -
  have "\<exists>b. losLoop ws ax ay bx by = Some b" for ws
    by (induction ws) (auto simp add: seg_char split: bool.splits)
  then show ?thesis by (simp add: hasLineOfSight_def losLoop_sym[of _ bx "by" ax ay])
qed







lemmas dblEval = dbl_def expo_def pow2_def roundEven_def bits.simps Let_def fadd_def fsub_def fdiv_def





section \<open>Collision resolution\<close>

text \<open>
  Claim C8. When mover and obstacle do not intersect (touching edges count as separated),
  \<open>resolveStaticCollision\<close> leaves the mover as it is; so a call that has separated the
  pair is followed by calls that change nothing.
\<close>

theorem resolveStaticCollision_noop_when_separated:
  "(\<not> intersectsAABB mover stat \<longrightarrow> resolveStaticCollision mover stat = mover) \<and>
   (\<not> intersectsAABB (resolveStaticCollision mover stat) stat \<longrightarrow>
      resolveStaticCollision (resolveStaticCollision mover stat) stat = resolveStaticCollision mover stat)"
  by (simp add: resolveStaticCollision_def)

theorem resolveStaticCollision_noop_when_separated_witness:
  "\<not> intersectsAABB (mkrect 0 0 10 10) (mkrect 10 0 5 5) \<and>
   resolveStaticCollision (mkrect 0 0 10 10) (mkrect 10 0 5 5) = mkrect 0 0 10 10 \<and>
   intersectsAABB (mkrect 0 0 10 10) (mkrect 8 0 5 20) \<and>
   \<not> intersectsAABB (resolveStaticCollision (mkrect 0 0 10 10) (mkrect 8 0 5 20)) (mkrect 8 0 5 20) \<and>
   resolveStaticCollision (resolveStaticCollision (mkrect 0 0 10 10) (mkrect 8 0 5 20)) (mkrect 8 0 5 20)
     = mkrect (- 2) 0 10 10"
proof -
  have a: "\<not> intersectsAABB (mkrect 0 0 10 10) (mkrect 10 0 5 5)"
    by (simp add: intersectsAABB_def mkrect_def)
  have r: "resolveStaticCollision (mkrect 0 0 10 10) (mkrect 8 0 5 20) = mkrect (- 2) 0 10 10"
    by (simp add: resolveStaticCollision_def intersectsAABB_def mkrect_def overlapX_def overlapY_def)
  have b: "\<not> intersectsAABB (resolveStaticCollision (mkrect 0 0 10 10) (mkrect 8 0 5 20)) (mkrect 8 0 5 20)"
    unfolding r by (simp add: intersectsAABB_def mkrect_def)
  have c: "intersectsAABB (mkrect 0 0 10 10) (mkrect 8 0 5 20)"
    by (simp add: intersectsAABB_def mkrect_def)
  from resolveStaticCollision_noop_when_separated[of "mkrect 0 0 10 10" "mkrect 10 0 5 5"]
    resolveStaticCollision_noop_when_separated[of "mkrect 0 0 10 10" "mkrect 8 0 5 20"] a b c r
  show ?thesis by simp
qed

text \<open>
  Over the real numbers: a call moves an overlapping mover along one axis by the overlap on
  that axis, and the pair is separated afterwards exactly when the mover sticks out of the
  obstacle on one side only on that axis.
\<close>

lemma resolveStaticCollision_real_separates:
  assumes "intersectsAABB mover stat" "0 < overlapX mover stat" "0 < overlapY mover stat"
  shows "(if overlapX mover stat < overlapY mover stat
          then \<bar>rx (resolveStaticCollision mover stat) - rx mover\<bar> = overlapX mover stat \<and>
               ry (resolveStaticCollision mover stat) = ry mover \<and>
               (\<not> intersectsAABB (resolveStaticCollision mover stat) stat) =
                 straddlesOneEdge (rx mover) (rx mover + rw mover) (rx stat) (rx stat + rw stat)
          else \<bar>ry (resolveStaticCollision mover stat) - ry mover\<bar> = overlapY mover stat \<and>
               rx (resolveStaticCollision mover stat) = rx mover \<and>
               (\<not> intersectsAABB (resolveStaticCollision mover stat) stat) =
                 straddlesOneEdge (ry mover) (ry mover + rh mover) (ry stat) (ry stat + rh stat)) \<and>
         rw (resolveStaticCollision mover stat) = rw mover \<and>
         rh (resolveStaticCollision mover stat) = rh mover"
  using assms
  by (auto simp add: resolveStaticCollision_def intersectsAABB_def overlapX_def overlapY_def
       straddlesOneEdge_def min_def max_def split: if_splits)

lemma intersectsAABB64_exact:
  "exact (rx a + rw a) \<Longrightarrow> exact (ry a + rh a) \<Longrightarrow> exact (rx b + rw b) \<Longrightarrow> exact (ry b + rh b) \<Longrightarrow>
     intersectsAABB64 a b = Some (intersectsAABB a b)"
  by (simp add: intersectsAABB64_def intersectsAABB_def fadd_def exact_def)

lemma resolve_rwh: "rw (resolveStaticCollision mover stat) = rw mover" "rh (resolveStaticCollision mover stat) = rh mover"
  by (simp_all add: resolveStaticCollision_def)

lemma resolveStaticCollision64_exact:
  assumes "resolveExact mover stat"
  shows "resolveStaticCollision64 mover stat = Some (resolveStaticCollision mover stat)"
    and "intersectsAABB64 (resolveStaticCollision mover stat) stat =
           Some (intersectsAABB (resolveStaticCollision mover stat) stat)"
proof -
  from assms have e: "exact (rx mover + rw mover)" "exact (ry mover + rh mover)"
      "exact (rx stat + rw stat)" "exact (ry stat + rh stat)"
      "exact (overlapX mover stat)" "exact (overlapY mover stat)"
    and r: "exact (rx (resolveStaticCollision mover stat))" "exact (ry (resolveStaticCollision mover stat))"
      "exact (rx (resolveStaticCollision mover stat) + rw (resolveStaticCollision mover stat))"
      "exact (ry (resolveStaticCollision mover stat) + rh (resolveStaticCollision mover stat))"
    by (simp_all add: resolveExact_def resolve_rwh)
  show "intersectsAABB64 (resolveStaticCollision mover stat) stat =
           Some (intersectsAABB (resolveStaticCollision mover stat) stat)"
    by (rule intersectsAABB64_exact[OF r(3,4) e(3,4)])
  note i = intersectsAABB64_exact[OF e(1,2,3,4)]
  from e have s: "fadd (rx mover) (rw mover) = Some (rx mover + rw mover)"
    "fadd (ry mover) (rh mover) = Some (ry mover + rh mover)"
    "fadd (rx stat) (rw stat) = Some (rx stat + rw stat)"
    "fadd (ry stat) (rh stat) = Some (ry stat + rh stat)"
    "fsub (min (rx mover + rw mover) (rx stat + rw stat)) (max (rx mover) (rx stat)) = Some (overlapX mover stat)"
    "fsub (min (ry mover + rh mover) (ry stat + rh stat)) (max (ry mover) (ry stat)) = Some (overlapY mover stat)"
    by (simp_all add: fadd_def fsub_def exact_def overlapX_def overlapY_def)
  have u: "resolveStaticCollision64 mover stat =
     (if \<not> intersectsAABB mover stat then Some mover
      else if overlapX mover stat < overlapY mover stat then
             (if rx mover < rx stat
              then do { x \<leftarrow> fsub (rx mover) (overlapX mover stat); Some (mover\<lparr>rx := x\<rparr>) }
              else do { x \<leftarrow> fadd (rx mover) (overlapX mover stat); Some (mover\<lparr>rx := x\<rparr>) })
           else
             (if ry mover < ry stat
              then do { y \<leftarrow> fsub (ry mover) (overlapY mover stat); Some (mover\<lparr>ry := y\<rparr>) }
              else do { y \<leftarrow> fadd (ry mover) (overlapY mover stat); Some (mover\<lparr>ry := y\<rparr>) }))"
    by (simp only: resolveStaticCollision64_def i s Option.bind.simps)
  show "resolveStaticCollision64 mover stat = Some (resolveStaticCollision mover stat)"
  proof (cases "intersectsAABB mover stat")
    case False
    then show ?thesis by (simp add: u resolveStaticCollision_def)
  next
    case True
    show ?thesis
    proof (cases "overlapX mover stat < overlapY mover stat")
      case ox: True
      show ?thesis
      proof (cases "rx mover < rx stat")
        case lt: True
        with True ox r(1) have "fsub (rx mover) (overlapX mover stat) = Some (rx mover - overlapX mover stat)"
          by (simp add: resolveStaticCollision_def fsub_def exact_def)
        with True ox lt show ?thesis by (simp add: u resolveStaticCollision_def)
      next
        case ge: False
        with True ox r(1) have "fadd (rx mover) (overlapX mover stat) = Some (rx mover + overlapX mover stat)"
          by (simp add: resolveStaticCollision_def fadd_def exact_def)
        with True ox ge show ?thesis by (simp add: u resolveStaticCollision_def)
      qed
    next
      case oy: False
      show ?thesis
      proof (cases "ry mover < ry stat")
        case lt: True
        with True oy r(2) have "fsub (ry mover) (overlapY mover stat) = Some (ry mover - overlapY mover stat)"
          by (simp add: resolveStaticCollision_def fsub_def exact_def)
        with True oy lt show ?thesis by (simp add: u resolveStaticCollision_def)
      next
        case ge: False
        with True oy r(2) have "fadd (ry mover) (overlapY mover stat) = Some (ry mover + overlapY mover stat)"
          by (simp add: resolveStaticCollision_def fadd_def exact_def)
        with True oy ge show ?thesis by (simp add: u resolveStaticCollision_def)
      qed
    qed
  qed
qed

lemmas resEval = resolveStaticCollision64_def intersectsAABB64_def mkrect_def dblEval

text \<open>
  Claim C9 as it is stated, in the arithmetic of the code, fails twice. A rectangle of the
  monster's size that straddles the wall \<open>rect(320, 160, 18, 260)\<close> on both sides overlaps
  it by 18 on the x axis and by 24 on the y axis, is moved by 18 to the left, and still
  intersects the wall. And a rectangle of the player's size at \<open>(771.46, 232.29)\<close> (the
  doubles nearest to these decimals) overlaps only the upper edge of the wall
  \<open>rect(480, 250, 320, 18)\<close>; the overlap on the y axis is rounded, the call moves the
  rectangle up to \<open>224.00000000000003\<close>, and it still intersects the wall.
\<close>

theorem resolveStaticCollision64_may_not_separate:
  "intersectsAABB64 (mkrect 312 200 34 24) (mkrect 320 160 18 260) = Some True \<and>
   0 < overlapX (mkrect 312 200 34 24) (mkrect 320 160 18 260) \<and>
   0 < overlapY (mkrect 312 200 34 24) (mkrect 320 160 18 260) \<and>
   resolveStaticCollision64 (mkrect 312 200 34 24) (mkrect 320 160 18 260) = Some (mkrect 294 200 34 24) \<and>
   intersectsAABB64 (mkrect 294 200 34 24) (mkrect 320 160 18 260) = Some True \<and>
   dbl 771.46 = Some (848229240364073 / 1099511627776) \<and>
   dbl 232.29 = Some (8172977792514785 / 35184372088832) \<and>
   intersectsAABB64 (mkrect (848229240364073 / 1099511627776) (8172977792514785 / 35184372088832) 18 26)
     (mkrect 480 250 320 18) = Some True \<and>
   straddlesOneEdge (8172977792514785 / 35184372088832) (8172977792514785 / 35184372088832 + 26) 250 (250 + 18) \<and>
   resolveStaticCollision64 (mkrect (848229240364073 / 1099511627776) (8172977792514785 / 35184372088832) 18 26)
     (mkrect 480 250 320 18) =
       Some (mkrect (848229240364073 / 1099511627776) (7881299347898369 / 35184372088832) 18 26) \<and>
   224 < (7881299347898369 / 35184372088832 :: real) \<and>
   intersectsAABB64 (mkrect (848229240364073 / 1099511627776) (7881299347898369 / 35184372088832) 18 26)
     (mkrect 480 250 320 18) = Some True"
proof -
  have a: "intersectsAABB64 (mkrect 312 200 34 24) (mkrect 320 160 18 260) = Some True"
    "resolveStaticCollision64 (mkrect 312 200 34 24) (mkrect 320 160 18 260) = Some (mkrect 294 200 34 24)"
    "intersectsAABB64 (mkrect 294 200 34 24) (mkrect 320 160 18 260) = Some True"
    by (simp_all add: resEval cong: let_weak_cong)
  have b: "0 < overlapX (mkrect 312 200 34 24) (mkrect 320 160 18 260)"
    "0 < overlapY (mkrect 312 200 34 24) (mkrect 320 160 18 260)"
    by (simp_all add: overlapX_def overlapY_def mkrect_def)
  have l: "dbl 771.46 = Some (848229240364073 / 1099511627776)"
    "dbl 232.29 = Some (8172977792514785 / 35184372088832)"
    by (simp_all add: dblEval cong: let_weak_cong)
  have c: "intersectsAABB64 (mkrect (848229240364073 / 1099511627776) (8172977792514785 / 35184372088832) 18 26)
     (mkrect 480 250 320 18) = Some True"
    by (simp add: resEval cong: let_weak_cong)
  have d: "straddlesOneEdge (8172977792514785 / 35184372088832) (8172977792514785 / 35184372088832 + 26) 250 (250 + 18)"
    by (simp add: straddlesOneEdge_def)
  have e: "resolveStaticCollision64 (mkrect (848229240364073 / 1099511627776) (8172977792514785 / 35184372088832) 18 26)
     (mkrect 480 250 320 18) =
       Some (mkrect (848229240364073 / 1099511627776) (7881299347898369 / 35184372088832) 18 26)"
    by (simp add: resEval cong: let_weak_cong)
  have f: "intersectsAABB64 (mkrect (848229240364073 / 1099511627776) (7881299347898369 / 35184372088832) 18 26)
     (mkrect 480 250 320 18) = Some True"
    by (simp add: resEval cong: let_weak_cong)
  have g: "224 < (7881299347898369 / 35184372088832 :: real)" by simp
  from a b l c d e f g show ?thesis by blast
qed

text \<open>
  Claim C9, amended. For every overlapping pair (strictly positive overlap on both axes) for
  which no operation of the call and of the test after it is rounded, a call moves the
  mover along exactly one axis, the one of the smaller overlap (the y axis when the overlaps
  are equal), by exactly the overlap on that axis, and changes nothing else; afterwards the
  pair does not intersect if and only if, on that axis, the mover sticks out of the obstacle
  on one side only (its low edge below the obstacle's and its high edge not above, or its
  low edge not below and its high edge not below).
\<close>

theorem resolveStaticCollision64_separates_iff:
  assumes "intersectsAABB64 mover stat = Some True" "0 < overlapX mover stat" "0 < overlapY mover stat"
    "resolveExact mover stat"
  shows "\<exists>r. resolveStaticCollision64 mover stat = Some r \<and>
           (if overlapX mover stat < overlapY mover stat
            then \<bar>rx r - rx mover\<bar> = overlapX mover stat \<and> ry r = ry mover \<and>
                 intersectsAABB64 r stat =
                   Some (\<not> straddlesOneEdge (rx mover) (rx mover + rw mover) (rx stat) (rx stat + rw stat))
            else \<bar>ry r - ry mover\<bar> = overlapY mover stat \<and> rx r = rx mover \<and>
                 intersectsAABB64 r stat =
                   Some (\<not> straddlesOneEdge (ry mover) (ry mover + rh mover) (ry stat) (ry stat + rh stat))) \<and>
           rw r = rw mover \<and> rh r = rh mover"
proof -
  from assms(4) have e: "exact (rx mover + rw mover)" "exact (ry mover + rh mover)"
      "exact (rx stat + rw stat)" "exact (ry stat + rh stat)"
    by (simp_all add: resolveExact_def)
  from assms(1) intersectsAABB64_exact[OF e] have i: "intersectsAABB mover stat" by simp
  note x = resolveStaticCollision64_exact[OF assms(4)]
  from resolveStaticCollision_real_separates[OF i assms(2,3)] x show ?thesis by (auto split: if_splits)
qed

theorem resolveStaticCollision64_separates_iff_witness:
  "intersectsAABB64 (mkrect 300 200 34 24) (mkrect 320 160 18 260) = Some True \<and>
   resolveExact (mkrect 300 200 34 24) (mkrect 320 160 18 260) \<and>
   resolveStaticCollision64 (mkrect 300 200 34 24) (mkrect 320 160 18 260) = Some (mkrect 286 200 34 24) \<and>
   intersectsAABB64 (mkrect 286 200 34 24) (mkrect 320 160 18 260) = Some False"
proof -
  have r: "resolveStaticCollision (mkrect 300 200 34 24) (mkrect 320 160 18 260) = mkrect 286 200 34 24"
    by (simp add: resolveStaticCollision_def intersectsAABB_def mkrect_def overlapX_def overlapY_def)
  have h: "intersectsAABB64 (mkrect 300 200 34 24) (mkrect 320 160 18 260) = Some True"
    by (simp add: resEval cong: let_weak_cong)
  have o: "0 < overlapX (mkrect 300 200 34 24) (mkrect 320 160 18 260)"
    "0 < overlapY (mkrect 300 200 34 24) (mkrect 320 160 18 260)"
    "overlapX (mkrect 300 200 34 24) (mkrect 320 160 18 260) < overlapY (mkrect 300 200 34 24) (mkrect 320 160 18 260)"
    by (simp_all add: mkrect_def overlapX_def overlapY_def)
  have x: "resolveExact (mkrect 300 200 34 24) (mkrect 320 160 18 260)"
    unfolding resolveExact_def r
    by (simp add: mkrect_def overlapX_def overlapY_def exact_def dblEval cong: let_weak_cong)
  have s: "straddlesOneEdge (rx (mkrect 300 200 34 24)) (rx (mkrect 300 200 34 24) + rw (mkrect 300 200 34 24))
     (rx (mkrect 320 160 18 260)) (rx (mkrect 320 160 18 260) + rw (mkrect 320 160 18 260))"
    by (simp add: straddlesOneEdge_def mkrect_def)
  have v: "resolveStaticCollision64 (mkrect 300 200 34 24) (mkrect 320 160 18 260) = Some (mkrect 286 200 34 24)"
    by (simp add: resEval cong: let_weak_cong)
  from resolveStaticCollision64_separates_iff[OF h o(1,2) x] obtain q where
    q: "resolveStaticCollision64 (mkrect 300 200 34 24) (mkrect 320 160 18 260) = Some q"
    "intersectsAABB64 q (mkrect 320 160 18 260) =
       Some (\<not> straddlesOneEdge (rx (mkrect 300 200 34 24)) (rx (mkrect 300 200 34 24) + rw (mkrect 300 200 34 24))
     (rx (mkrect 320 160 18 260)) (rx (mkrect 320 160 18 260) + rw (mkrect 320 160 18 260)))"
    using o(3) by auto
  from q(1) v have "q = mkrect 286 200 34 24" by simp
  with q(2) s have "intersectsAABB64 (mkrect 286 200 34 24) (mkrect 320 160 18 260) = Some False" by simp
  with h x v show ?thesis by simp
qed

section \<open>Entity motion: the arena bounds\<close>

lemma resolve_wh: "rw (resolveStaticCollision m s) = rw m \<and> rh (resolveStaticCollision m s) = rh m"
  by (simp add: resolveStaticCollision_def)

lemma fold_resolve_wh: "rw (fold (\<lambda>w e. resolveStaticCollision e w) ws e) = rw e \<and>
   rh (fold (\<lambda>w e. resolveStaticCollision e w) ws e) = rh e"
  by (induction ws arbitrary: e) (simp_all add: resolve_wh)

lemma moveEntity_wh: "rw (moveEntity W H e a b dt) = rw e \<and> rh (moveEntity W H e a b dt) = rh e"
  by (simp add: moveEntity_def Let_def fold_resolve_wh)

lemma moveEntity_inside:
  assumes "rw e \<le> W" "rh e \<le> H"
  shows "insideArena W H (moveEntity W H e a b dt)"
  using assms by (auto simp add: moveEntity_def Let_def insideArena_def clamp_def fold_resolve_wh)

lemma moveAll_inside:
  "rw e \<le> W \<Longrightarrow> rh e \<le> H \<Longrightarrow> steps \<noteq> [] \<Longrightarrow> insideArena W H (moveAll W H steps e)"
proof (induction steps arbitrary: e)
  case Nil then show ?case by simp
next
  case (Cons s steps)
  obtain a b dt where s: "s = (a, b, dt)" by (cases s)
  show ?case
  proof (cases "steps = []")
    case True
    with Cons.prems show ?thesis by (simp add: s moveEntity_inside)
  next
    case False
    with Cons.IH[of "moveEntity W H e a b dt"] Cons.prems show ?thesis
      by (simp add: s moveEntity_wh)
  qed
qed

text \<open>
  Claim C4. For every entity that is no wider and no higher than the arena, every velocity
  and every \<open>dt\<close>, the bounding box after \<open>moveEntity\<close> satisfies \<open>0 \<le> x\<close>,
  \<open>x + w \<le> W\<close>, \<open>0 \<le> y\<close> and \<open>y + h \<le> H\<close>; hence it does after every non-empty
  sequence of motion updates.
\<close>

theorem moveEntity_stays_inside:
  assumes "rw ent \<le> W" "rh ent \<le> H"
  shows "insideArena W H (moveEntity W H ent velx vely dt) \<and>
         (steps \<noteq> [] \<longrightarrow> insideArena W H (moveAll W H steps ent))"
  using assms moveEntity_inside moveAll_inside by blast

theorem moveEntity_stays_inside_witness:
  "rw player0 \<le> 900 \<and> rh player0 \<le> 560 \<and>
   insideArena 900 560 (moveEntity 900 560 player0 (- 210) 0 (1 / 50)) \<and>
   insideArena 900 560 (moveAll 900 560 [(- 210, 0, 1 / 50), (0, - 210, 1 / 50)] player0)"
proof -
  have h: "rw player0 \<le> 900" "rh player0 \<le> 560" by (simp_all add: player0_def)
  from moveEntity_stays_inside[OF h, of "- 210" 0 "1 / 50" "[(- 210, 0, 1 / 50), (0, - 210, 1 / 50)]"] h
  show ?thesis by simp
qed

section \<open>The shield\<close>

lemma absorbHit_fields:
  "hitCost (shield (absorbHit t p)) = hitCost (shield p)"
  "smax (shield (absorbHit t p)) = smax (shield p)"
  "breakCooldownMs (shield (absorbHit t p)) = breakCooldownMs (shield p)"
  "active (shield (absorbHit t p)) = active (shield p)"
  "durability (shield (absorbHit t p)) = clamp (durability (shield p) - hitCost (shield p)) 0 (smax (shield p))"
  by (simp_all add: absorbHit_def Let_def)

lemma absorbHit_broken:
  "durability (shield (absorbHit t p)) \<le> 0.001 \<Longrightarrow>
     brokenUntil (shield (absorbHit t p)) = t + breakCooldownMs (shield p)"
  by (auto simp add: absorbHit_def Let_def split: if_splits)

lemma max_step: "0 \<le> k \<Longrightarrow> max 0 (max 0 (d - c) - k) = max (0::real) (d - (c + k))"
  by (auto simp add: max_def)

lemma absorbHits_durability:
  assumes "0 \<le> hitCost (shield p)" "0 \<le> durability (shield p)" "durability (shield p) \<le> smax (shield p)"
  shows "durability (shield (absorbHits ts p)) =
           max 0 (durability (shield p) - real (length ts) * hitCost (shield p)) \<and>
         hitCost (shield (absorbHits ts p)) = hitCost (shield p) \<and>
         smax (shield (absorbHits ts p)) = smax (shield p) \<and>
         breakCooldownMs (shield (absorbHits ts p)) = breakCooldownMs (shield p)"
  using assms
proof (induction ts arbitrary: p)
  case Nil
  then show ?case by simp
next
  case (Cons t ts)
  let ?q = "absorbHit t p"
  have d: "durability (shield ?q) = max 0 (durability (shield p) - hitCost (shield p))"
    using Cons.prems by (simp add: absorbHit_fields clamp_def)
  have pre: "0 \<le> hitCost (shield ?q)" "0 \<le> durability (shield ?q)" "durability (shield ?q) \<le> smax (shield ?q)"
    using Cons.prems d by (simp_all add: absorbHit_fields(1,2))
  have k: "0 \<le> real (length ts) * hitCost (shield p)" using Cons.prems(1) by simp
  have "durability (shield (absorbHits (t # ts) p)) =
        max 0 (max 0 (durability (shield p) - hitCost (shield p)) - real (length ts) * hitCost (shield p))"
    using Cons.IH[OF pre] d by (simp add: absorbHit_fields(1))
  also have "\<dots> = max 0 (durability (shield p) - (hitCost (shield p) + real (length ts) * hitCost (shield p)))"
    by (rule max_step[OF k])
  also have "hitCost (shield p) + real (length ts) * hitCost (shield p)
      = real (length (t # ts)) * hitCost (shield p)" by (simp add: algebra_simps)
  finally show ?case using Cons.IH[OF pre] by (simp add: absorbHit_fields(1,2,3))
qed

lemma absorbHits_snoc: "absorbHits (ts @ [t]) p = absorbHit t (absorbHits ts p)"
  by (induction ts arbitrary: p) simp_all

lemma absorbHits_broken:
  assumes "ts \<noteq> []" "durability (shield (absorbHits ts p)) \<le> 0.001"
  shows "brokenUntil (shield (absorbHits ts p)) = last ts + breakCooldownMs (shield (absorbHits ts p))"
proof -
  from assms(1) obtain us u where ts: "ts = us @ [u]" by (metis rev_exhaust)
  from assms(2) show ?thesis
    unfolding ts absorbHits_snoc
    using absorbHit_broken[of u "absorbHits us p"] by (simp add: absorbHit_fields(3))
qed

lemma flameHits_absorbHit: "flameHits W H dt now (absorbHit t p) f = flameHits W H dt now p f"
  by (simp add: flameHits_def absorbHit_def Let_def)

lemma flameStep_hit:
  assumes "flameHits W H dt now (player g) f" "shieldIsUp now (player g)"
  shows "flameStep W H dt now f g = (None, g\<lparr>player := absorbHit now (player g)\<rparr>)"
  using assms by (simp add: flameStep_def flameHits_def Let_def)

lemma flameStep_miss:
  assumes "\<not> flameHits W H dt now (player g) f"
  shows "snd (flameStep W H dt now f g) = g"
  using assms by (auto simp add: flameStep_def flameHits_def Let_def)

lemma flamesLoop_absorbs:
  assumes "raisedAtEach (replicate (length (filter (flameHits W H dt now (player g)) fs)) now) (player g)"
  shows "snd (flamesLoop W H dt now fs g) =
           g\<lparr>player := absorbHits (replicate (length (filter (flameHits W H dt now (player g)) fs)) now) (player g)\<rparr>"
  using assms
proof (induction fs arbitrary: g)
  case Nil
  then show ?case by simp
next
  case (Cons f fs)
  show ?case
  proof (cases "flameHits W H dt now (player g) f")
    case True
    with Cons.prems have up: "shieldIsUp now (player g)"
      and r: "raisedAtEach (replicate (length (filter (flameHits W H dt now (player g)) fs)) now)
                 (absorbHit now (player g))" by simp_all
    let ?g1 = "g\<lparr>player := absorbHit now (player g)\<rparr>"
    have s: "flameStep W H dt now f g = (None, ?g1)" by (rule flameStep_hit[OF True up])
    have e: "flameHits W H dt now (player ?g1) = flameHits W H dt now (player g)"
      by (rule ext) (simp add: flameHits_absorbHit)
    from r have "raisedAtEach (replicate (length (filter (flameHits W H dt now (player ?g1)) fs)) now) (player ?g1)"
      by (simp only: e) simp
    from Cons.IH[OF this] have "snd (flamesLoop W H dt now fs ?g1) =
        ?g1\<lparr>player := absorbHits (replicate (length (filter (flameHits W H dt now (player g)) fs)) now)
              (absorbHit now (player g))\<rparr>"
      by (simp only: e) simp
    with True s show ?thesis by (simp split: prod.splits)
  next
    case False
    obtain k where s: "flameStep W H dt now f g = (k, g)"
      using flameStep_miss[OF False] by (cases "flameStep W H dt now f g") simp
    from Cons.prems False have
      "raisedAtEach (replicate (length (filter (flameHits W H dt now (player g)) fs)) now) (player g)" by simp
    from Cons.IH[OF this] False s show ?thesis by (auto split: prod.splits option.splits)
  qed
qed

lemma updateFlames_absorbs:
  assumes "raisedAtEach (replicate (length (filter (flameHits W H dt now (player g)) (flames g))) now) (player g)"
  shows "player (updateFlames W H dt now g) =
           absorbHits (replicate (length (filter (flameHits W H dt now (player g)) (flames g))) now) (player g)"
    and "state (updateFlames W H dt now g) = state g"
    and "status (updateFlames W H dt now g) = status g"
proof -
  have l: "length (filter (flameHits W H dt now (player g)) (rev (flames g))) =
     length (filter (flameHits W H dt now (player g)) (flames g))"
    by (simp flip: rev_filter)
  from assms have "raisedAtEach (replicate (length (filter (flameHits W H dt now (player g)) (rev (flames g)))) now)
     (player g)" by (simp only: l)
  from flamesLoop_absorbs[OF this] have
    s: "snd (flamesLoop W H dt now (rev (flames g)) g) =
        g\<lparr>player := absorbHits (replicate (length (filter (flameHits W H dt now (player g)) (flames g))) now) (player g)\<rparr>"
    by (simp only: l)
  obtain ks g' where e: "flamesLoop W H dt now (rev (flames g)) g = (ks, g')"
    by (cases "flamesLoop W H dt now (rev (flames g)) g")
  with s show "player (updateFlames W H dt now g) =
           absorbHits (replicate (length (filter (flameHits W H dt now (player g)) (flames g))) now) (player g)"
    "state (updateFlames W H dt now g) = state g" "status (updateFlames W H dt now g) = status g"
    by (simp_all add: updateFlames_def)
qed

lemma absorbHits_append: "absorbHits (xs @ ys) p = absorbHits ys (absorbHits xs p)"
  by (induction xs arbitrary: p) simp_all

lemma raisedAtEach_append: "raisedAtEach (xs @ ys) p = (raisedAtEach xs p \<and> raisedAtEach ys (absorbHits xs p))"
  by (induction xs arbitrary: p) auto

lemma flameCalls_absorbs:
  assumes "raisedAtEach (hitTimes W H cs g) (player g)"
  shows "player (flameCalls W H cs g) = absorbHits (hitTimes W H cs g) (player g) \<and>
         state (flameCalls W H cs g) = state g \<and> status (flameCalls W H cs g) = status g"
  using assms
proof (induction cs arbitrary: g)
  case Nil
  then show ?case by simp
next
  case (Cons c cs)
  obtain dt now where c: "c = (dt, now)" by (cases c)
  let ?n = "length (filter (flameHits W H dt now (player g)) (flames g))"
  let ?g1 = "updateFlames W H dt now g"
  from Cons.prems have r1: "raisedAtEach (replicate ?n now) (player g)"
    and r2: "raisedAtEach (hitTimes W H cs ?g1) (absorbHits (replicate ?n now) (player g))"
    by (simp_all add: c raisedAtEach_append)
  note u = updateFlames_absorbs[OF r1]
  from r2 have "raisedAtEach (hitTimes W H cs ?g1) (player ?g1)" by (simp only: u(1))
  from Cons.IH[OF this] show ?case by (simp add: c u absorbHits_append)
qed

text \<open>
  Claim C2. Take any sequence of calls of \<open>updateFlames\<close> from a state whose durability
  \<open>d0\<close> lies in \<open>[0, max]\<close> and whose hit cost is not negative, with nothing regenerating
  the shield between the calls, and let \<open>N\<close> be the number of particles that hit the
  player in these calls. If the shield is up at each of these hits, the durability after
  the calls is \<open>max(0, d0 - N * hitCost)\<close>, which lies in \<open>[0, max]\<close>, and no hit has ended
  the round; and when the last hit has brought the durability to 0, \<open>brokenUntil\<close> is the
  time of that hit plus the cooldown, and \<open>shieldIsUp(now)\<close> is false for every \<open>now\<close>
  before \<open>brokenUntil\<close>, whether the shield key is held or not.
\<close>

theorem shield_after_hits:
  assumes "0 \<le> hitCost (shield (player g))" "0 \<le> durability (shield (player g))"
      "durability (shield (player g)) \<le> smax (shield (player g))"
      "raisedAtEach (hitTimes W H cs g) (player g)"
  shows "durability (shield (player (flameCalls W H cs g))) =
           clamp (max 0 (durability (shield (player g)) - real (length (hitTimes W H cs g)) * hitCost (shield (player g))))
              0 (smax (shield (player g))) \<and>
         durability (shield (player (flameCalls W H cs g))) =
           max 0 (durability (shield (player g)) - real (length (hitTimes W H cs g)) * hitCost (shield (player g))) \<and>
         state (flameCalls W H cs g) = state g \<and>
         (hitTimes W H cs g \<noteq> [] \<and> durability (shield (player (flameCalls W H cs g))) = 0 \<longrightarrow>
            brokenUntil (shield (player (flameCalls W H cs g))) =
              last (hitTimes W H cs g) + breakCooldownMs (shield (player g)) \<and>
            (\<forall>now a. now < brokenUntil (shield (player (flameCalls W H cs g))) \<longrightarrow>
               \<not> shieldIsUp now (holdSpace a (player (flameCalls W H cs g)))))"
proof -
  let ?ts = "hitTimes W H cs g" and ?p = "player g"
  note f = flameCalls_absorbs[OF assms(4)]
  note d = absorbHits_durability[OF assms(1,2,3), of ?ts]
  have 1: "durability (shield (absorbHits ?ts ?p)) =
           max 0 (durability (shield ?p) - real (length ?ts) * hitCost (shield ?p))" using d by simp
  have "0 \<le> real (length ?ts) * hitCost (shield ?p)" using assms(1) by simp
  then have "durability (shield ?p) - real (length ?ts) * hitCost (shield ?p) \<le> smax (shield ?p)"
    using assms(3) by linarith
  then have 2: "clamp (max 0 (durability (shield ?p) - real (length ?ts) * hitCost (shield ?p))) 0 (smax (shield ?p))
      = max 0 (durability (shield ?p) - real (length ?ts) * hitCost (shield ?p))"
    using assms(2,3) by (simp add: clamp_def)
  have 3: "?ts \<noteq> [] \<and> durability (shield (absorbHits ?ts ?p)) = 0 \<longrightarrow>
            brokenUntil (shield (absorbHits ?ts ?p)) = last ?ts + breakCooldownMs (shield ?p) \<and>
            (\<forall>now a. now < brokenUntil (shield (absorbHits ?ts ?p)) \<longrightarrow>
               \<not> shieldIsUp now (holdSpace a (absorbHits ?ts ?p)))"
    using absorbHits_broken[of ?ts ?p] d by (simp add: shieldIsUp_def holdSpace_def)
  from 1 2 3 f show ?thesis by simp
qed

lemmas flameEval = flameHits_def flameStep_def updateFlames_def Let_def walls_def mkrect_def intersectsAABB_def
  pointInRect_def shieldIsUp_def absorbHit_def clamp_def holdSpace_def player0_def

lemma underFire_hits: "hitTimes 900 560 [(1 / 50, 100), (1 / 50, 120)] underFire = [100, 100, 120, 120]"
  by (simp add: underFire_def flameEval)

theorem shield_after_hits_witness:
  "raisedAtEach (hitTimes 900 560 [(1 / 50, 100), (1 / 50, 120)] underFire) (player underFire) \<and>
   hitTimes 900 560 [(1 / 50, 100), (1 / 50, 120)] underFire = [100, 100, 120, 120] \<and>
   durability (shield (player (flameCalls 900 560 [(1 / 50, 100), (1 / 50, 120)] underFire))) = 0 \<and>
   brokenUntil (shield (player (flameCalls 900 560 [(1 / 50, 100), (1 / 50, 120)] underFire))) = 2520 \<and>
   \<not> shieldIsUp 2519 (holdSpace True (player (flameCalls 900 560 [(1 / 50, 100), (1 / 50, 120)] underFire))) \<and>
   state (flameCalls 900 560 [(1 / 50, 100), (1 / 50, 120)] underFire) = Running \<and>
   durability (shield (player (flameCalls 900 560 [(1 / 50, 100)] underFire))) = 48"
proof -
  have p: "player underFire = holdSpace True player0" "state underFire = Running" by (simp_all add: underFire_def)
  have r: "raisedAtEach (hitTimes 900 560 [(1 / 50, 100), (1 / 50, 120)] underFire) (player underFire)"
    unfolding underFire_hits p
    by (simp add: holdSpace_def player0_def shieldIsUp_def absorbHit_def clamp_def Let_def)
  have h1: "hitTimes 900 560 [(1 / 50, 100)] underFire = [100, 100]"
    by (simp add: underFire_def flameEval)
  have r1: "raisedAtEach (hitTimes 900 560 [(1 / 50, 100)] underFire) (player underFire)"
    unfolding h1 p
    by (simp add: holdSpace_def player0_def shieldIsUp_def absorbHit_def clamp_def Let_def)
  have h: "0 \<le> hitCost (shield (player underFire))" "0 \<le> durability (shield (player underFire))"
    "durability (shield (player underFire)) \<le> smax (shield (player underFire))"
    by (simp_all add: p holdSpace_def player0_def)
  have v: "hitCost (shield (player underFire)) = 26" "durability (shield (player underFire)) = 100"
    "smax (shield (player underFire)) = 100" "breakCooldownMs (shield (player underFire)) = 2400"
    by (simp_all add: p holdSpace_def player0_def)
  let ?g2 = "flameCalls 900 560 [(1 / 50, 100), (1 / 50, 120)] underFire"
  from shield_after_hits[OF h r, unfolded underFire_hits v]
  have d: "durability (shield (player ?g2)) = 0" and st: "state ?g2 = Running"
    and imp: "[100, 100, 120, 120] \<noteq> [] \<and> durability (shield (player ?g2)) = 0 \<longrightarrow>
       brokenUntil (shield (player ?g2)) = last [100, 100, 120, 120] + 2400 \<and>
       (\<forall>now a. now < brokenUntil (shield (player ?g2)) \<longrightarrow> \<not> shieldIsUp now (holdSpace a (player ?g2)))"
    by (simp_all add: p del: flameCalls.simps)
  from imp d have b: "brokenUntil (shield (player ?g2)) = 2520"
    and n: "\<forall>now a. now < brokenUntil (shield (player ?g2)) \<longrightarrow> \<not> shieldIsUp now (holdSpace a (player ?g2))"
    by simp_all
  from n b have n': "\<not> shieldIsUp 2519 (holdSpace True (player ?g2))" by simp
  from shield_after_hits[OF h r1, unfolded h1 v]
  have d1: "durability (shield (player (flameCalls 900 560 [(1 / 50, 100)] underFire))) = 48"
    by (simp del: flameCalls.simps)
  from r underFire_hits d b n' st d1 show ?thesis by blast
qed

lemma resolve_shield: "shield (resolveStaticCollision (m :: player) s) = shield m"
  by (simp add: resolveStaticCollision_def)

lemma fold_resolve_shield: "shield (fold (\<lambda>w e. resolveStaticCollision e w) ws (e :: player)) = shield e"
  by (induction ws arbitrary: e) (simp_all add: resolve_shield)

lemma moveEntity_shield: "shield (moveEntity W H (e :: player) a b dt) = shield e"
  by (simp add: moveEntity_def Let_def fold_resolve_shield)

lemma updatePlayer_shield:
  "\<exists>g'. updatePlayer W H dt now g = Some g' \<and>
     brokenUntil (shield (player g')) = brokenUntil (shield (player g)) \<and>
     (now < brokenUntil (shield (player g)) \<or> shieldIsUp now (holdSpace ('' '' \<in> keys g) (player g))
        \<longrightarrow> durability (shield (player g')) = durability (shield (player g)))"
proof -
  obtain dx dy where mi: "moveIntent (keys g) = (dx, dy)" by (cases "moveIntent (keys g)")
  show ?thesis
    by (simp add: updatePlayer_def Let_def mi normv_Some moveEntity_shield shieldIsUp_def holdSpace_def)
qed

lemma playerTicks_window:
  "(\<forall>(ks, dt, now) \<in> set steps. now < brokenUntil (shield (player g))) \<Longrightarrow>
   \<exists>g'. playerTicks W H steps g = Some g' \<and>
     brokenUntil (shield (player g')) = brokenUntil (shield (player g)) \<and>
     durability (shield (player g')) = durability (shield (player g))"
proof (induction steps arbitrary: g)
  case Nil
  then show ?case by simp
next
  case (Cons s steps)
  obtain ks dt now where s: "s = (ks, dt, now)" by (cases s)
  from Cons.prems have now: "now < brokenUntil (shield (player g))" by (simp add: s)
  from updatePlayer_shield[of W H dt now "g\<lparr>keys := ks\<rparr>"] now
  obtain g1 where g1: "updatePlayer W H dt now (g\<lparr>keys := ks\<rparr>) = Some g1"
    "brokenUntil (shield (player g1)) = brokenUntil (shield (player g))"
    "durability (shield (player g1)) = durability (shield (player g))" by auto
  from Cons.prems g1(2) have "\<forall>(ks, dt, now) \<in> set steps. now < brokenUntil (shield (player g1))"
    by (simp add: s)
  from Cons.IH[OF this] g1 show ?case by (simp add: s)
qed

text \<open>
  Claim C10. \<open>updatePlayer\<close> changes the shield durability only when the current time is
  at or past \<open>brokenUntil\<close> and \<open>shieldIsUp(now)\<close> is false (for the shield key as this
  call reads it): while the shield is up, and while the cooldown after a break runs, the
  durability stays as it is; so through any sequence of calls inside the cooldown window
  it stays at its value, 0 after a break.
\<close>

theorem updatePlayer_regen_gated:
  "(\<exists>g'. updatePlayer W H dt now g = Some g' \<and>
     (now < brokenUntil (shield (player g)) \<or> shieldIsUp now (holdSpace ('' '' \<in> keys g) (player g))
        \<longrightarrow> durability (shield (player g')) = durability (shield (player g)))) \<and>
   ((\<forall>(ks, dt, now) \<in> set steps. now < brokenUntil (shield (player g))) \<longrightarrow>
     (\<exists>g'. playerTicks W H steps g = Some g' \<and>
        durability (shield (player g')) = durability (shield (player g))))"
  using updatePlayer_shield[of W H dt now g] playerTicks_window[of steps g W H] by blast

theorem updatePlayer_regen_gated_witness:
  "(\<exists>g'. updatePlayer 900 560 (1 / 50) 3000 brokenShield = Some g' \<and>
      durability (shield (player g')) = 0) \<and>
   (\<exists>g'. playerTicks 900 560 [({'' ''}, 1 / 50, 3000), ({}, 1 / 50, 4000), ({''d''}, 1 / 50, 4999)]
             brokenShield = Some g' \<and>
      durability (shield (player g')) = 0)"
proof -
  have h: "3000 < brokenUntil (shield (player brokenShield))" "durability (shield (player brokenShield)) = 0"
    "\<forall>(ks, dt, now) \<in> set [({'' ''}, 1 / 50, 3000), ({}, 1 / 50, 4000), ({''d''}, 1 / 50, 4999 :: real)].
       now < brokenUntil (shield (player brokenShield))"
    by (simp_all add: brokenShield_def)
  from updatePlayer_regen_gated[of 900 560 "1 / 50" 3000 brokenShield
      "[({'' ''}, 1 / 50, 3000), ({}, 1 / 50, 4000), ({''d''}, 1 / 50, 4999)]"] h
  show ?thesis by auto
qed

section \<open>Contact with the monster\<close>

text \<open>\<open>updateMonster\<close> ends with the contact test: contact after its move loses the round.\<close>

lemma updateMonster_contact:
  assumes "updateMonster W H dt now g = Some g'" "intersectsAABB (player g') (monster g')"
  shows "state g' = Lost \<and> status g' = ''mauled (press R)''"
  using assms by (auto simp add: updateMonster_def Let_def split: option.splits if_splits)

lemma fold_resolve_free:
  "\<not> list_ex (\<lambda>w. intersectsAABB e w) ws \<Longrightarrow> fold (\<lambda>w e. resolveStaticCollision e w) ws e = e"
  by (induction ws) (simp_all add: resolveStaticCollision_def)

lemma moveEntity_free:
  assumes "\<not> list_ex (\<lambda>w. intersectsAABB (e\<lparr>rx := rx e + a * dt, ry := ry e + b * dt\<rparr>) w) (walls W H)"
    "0 \<le> rx e + a * dt" "rx e + a * dt \<le> W - rw e" "0 \<le> ry e + b * dt" "ry e + b * dt \<le> H - rh e"
  shows "moveEntity W H e a b dt = e\<lparr>rx := rx e + a * dt, ry := ry e + b * dt\<rparr>"
  using assms fold_resolve_free[OF assms(1)]
  by (simp add: moveEntity_def Let_def clamp_def)

lemma moveIntent_right: "moveIntent {''d''} = (1, 0)"
  by (simp add: moveIntent_def)

lemma normv_unit: "normv 1 0 = Some \<lparr>ptx = 1, pty = 0\<rparr>"
  by (simp add: normv_def hypot_axis jsdiv_def)

lemma updatePlayer_contactAtGoal: "updatePlayer 900 560 (1 / 50) 31010 (contactAtGoal\<lparr>lastTs := 31010, elapsed := 3001 / 100\<rparr>)
   = Some afterPlayer"
  by (simp add: updatePlayer_def moveIntent_right normv_unit Let_def contactAtGoal_def afterPlayer_def player0_def
      shieldIsUp_def clamp_def moveEntity_free walls_def mkrect_def intersectsAABB_def)

lemma los_contactAtGoal: "hasLineOfSight 900 560 76 113 (266/5) 113 = Some True"
  by (simp add: hasLineOfSight_def walls_def mkrect_def segmentIntersectsRect_def pointInRect_def
        clipStep_def jsdiv_def Let_def)

lemma monsterChase_contactAtGoal: "monsterChase 900 560 (1 / 50) 31010 76 113 (266/5) 113 afterPlayer
   = Some (afterPlayer\<lparr>monster := (monster afterPlayer)\<lparr>rx := 61.42\<rparr>\<rparr>)"
  by (simp add: monsterChase_def normv_def hypot_axis len_def jsdiv_def Let_def afterPlayer_def contactAtGoal_def
      monster0_def moveEntity_free walls_def mkrect_def intersectsAABB_def)

lemma updateMonster_contactAtGoal: "updateMonster 900 560 (1 / 50) 31010 afterPlayer = Some afterMonster"
proof -
  have c: "rx (player afterPlayer) + rw (player afterPlayer) / 2 = 266/5"
      "ry (player afterPlayer) + rh (player afterPlayer) / 2 = 113"
      "rx (monster afterPlayer) + rw (monster afterPlayer) / 2 = 76"
      "ry (monster afterPlayer) + rh (monster afterPlayer) / 2 = 113"
    by (simp_all add: afterPlayer_def contactAtGoal_def player0_def monster0_def)
  have i: "intersectsAABB (player afterPlayer) ((monster afterPlayer)\<lparr>rx := 61.42\<rparr>)"
    by (simp add: afterPlayer_def contactAtGoal_def player0_def monster0_def intersectsAABB_def)
  show ?thesis using i
    by (simp add: updateMonster_def Let_def c los_contactAtGoal monsterChase_contactAtGoal afterMonster_def)
qed

lemma updateFlames_contactAtGoal: "updateFlames 900 560 (1 / 50) 31010 afterMonster = afterMonster"
  by (simp add: updateFlames_def afterMonster_def afterPlayer_def contactAtGoal_def)

lemma tick_contactAtGoal: "tick 900 560 31010 contactAtGoal = Some (afterMonster\<lparr>state := Won, status := ''won (press R)''\<rparr>)"
proof -
  have a: "startTs contactAtGoal = 1000" "lastTs contactAtGoal = 30990" "state contactAtGoal = Running"
    by (simp_all add: contactAtGoal_def)
  have e: "elapsed afterMonster = 30.01"
    by (simp add: afterMonster_def afterPlayer_def)
  show ?thesis
    by (simp add: tick_def Let_def a updatePlayer_contactAtGoal updateMonster_contactAtGoal
        updateFlames_contactAtGoal e GOAL_SECONDS_def)
qed

text \<open>
  No update of the tick writes \<open>elapsed\<close>, and the test at the end of the tick reads only
  \<open>elapsed\<close>: a tick of a running round at or after the goal time ends with the state won,
  whatever \<open>updateMonster\<close> and \<open>updateFlames\<close> decided in it.
\<close>

lemma updatePlayer_elapsed: "updatePlayer W H dt now g = Some g' \<Longrightarrow> elapsed g' = elapsed g"
proof -
  obtain dx dy where mi: "moveIntent (keys g) = (dx, dy)" by (cases "moveIntent (keys g)")
  show "updatePlayer W H dt now g = Some g' \<Longrightarrow> elapsed g' = elapsed g"
    by (auto simp add: updatePlayer_def Let_def mi split: if_splits option.splits)
qed

lemma random_elapsed: "random g = (r, g') \<Longrightarrow> elapsed g' = elapsed g"
  by (auto simp add: random_def)

lemma pickWanderLoop_elapsed: "elapsed (pickWanderLoop n W H now g) = elapsed g"
  by (induction n arbitrary: g) (auto simp add: Let_def random_def split: prod.splits)

lemma emitFlame_elapsed: "elapsed (emitFlame fromX fromY baseAng now i g) = elapsed g"
  by (simp add: emitFlame_def Let_def random_def split: prod.splits)

lemma emitConeFlames_elapsed: "elapsed (emitConeFlames fromX fromY dirX dirY now g) = elapsed g"
proof -
  have "elapsed (fold (emitFlame fromX fromY b now) ns g) = elapsed g" for b ns
    by (induction ns arbitrary: g) (simp_all add: emitFlame_elapsed)
  then show ?thesis by (simp add: emitConeFlames_def)
qed

lemma monsterChase_elapsed:
  "monsterChase W H dt now mcx mcy pcx pcy g = Some g' \<Longrightarrow> elapsed g' = elapsed g"
  by (auto simp add: monsterChase_def Let_def emitConeFlames_elapsed split: option.splits if_splits)

lemma monsterPatrol_elapsed:
  "monsterPatrol W H dt now mcx mcy g = Some g' \<Longrightarrow> elapsed g' = elapsed g"
  by (auto simp add: monsterPatrol_def Let_def pickWanderTarget_def pickWanderLoop_elapsed
      split: option.splits if_splits)

lemma updateMonster_elapsed: "updateMonster W H dt now g = Some g' \<Longrightarrow> elapsed g' = elapsed g"
  by (auto simp add: updateMonster_def Let_def split: option.splits if_splits
      dest: monsterChase_elapsed monsterPatrol_elapsed)

lemma flameStep_elapsed: "flameStep W H dt now f g = (k, g') \<Longrightarrow> elapsed g' = elapsed g"
  by (auto simp add: flameStep_def Let_def split: if_splits)

lemma flamesLoop_elapsed: "flamesLoop W H dt now fs g = (ks, g') \<Longrightarrow> elapsed g' = elapsed g"
proof (induction fs arbitrary: g ks g')
  case Nil
  then show ?case by simp
next
  case (Cons f fs)
  obtain k g1 where s: "flameStep W H dt now f g = (k, g1)" by (cases "flameStep W H dt now f g")
  obtain ks2 g2 where l: "flamesLoop W H dt now fs g1 = (ks2, g2)" by (cases "flamesLoop W H dt now fs g1")
  from Cons.prems s l have "g' = g2" by (auto split: option.splits)
  with Cons.IH[OF l] flameStep_elapsed[OF s] show ?case by simp
qed

lemma updateFlames_elapsed: "elapsed (updateFlames W H dt now g) = elapsed g"
proof -
  obtain ks g' where l: "flamesLoop W H dt now (rev (flames g)) g = (ks, g')"
    by (cases "flamesLoop W H dt now (rev (flames g)) g")
  with flamesLoop_elapsed[OF l] show ?thesis by (simp add: updateFlames_def)
qed

lemma tick_goal_overrides:
  assumes "state g = Running" "tick W H ts g = Some g'"
    "GOAL_SECONDS \<le> (ts - (if startTs g = 0 then ts else startTs g)) / 1000"
  shows "state g' = Won \<and> status g' = ''won (press R)''"
proof -
  define g4 where "g4 = g\<lparr>startTs := (if startTs g = 0 then ts else startTs g), lastTs := ts,
      elapsed := (ts - (if startTs g = 0 then ts else startTs g)) / 1000\<rparr>"
  define dt where "dt = min 0.033 ((ts - (if lastTs g = 0 then ts else lastTs g)) / 1000)"
  have t: "tick W H ts g =
     (case updatePlayer W H dt ts g4 of
              None \<Rightarrow> None
            | Some g5 \<Rightarrow>
                (case updateMonster W H dt ts g5 of
                   None \<Rightarrow> None
                 | Some g6 \<Rightarrow>
                      Some (if elapsed (updateFlames W H dt ts g6) \<ge> GOAL_SECONDS
                            then (updateFlames W H dt ts g6)\<lparr>state := Won, status := ''won (press R)''\<rparr>
                            else updateFlames W H dt ts g6)))"
    using assms(1) by (simp add: tick_def Let_def g4_def dt_def cong: option.case_cong if_cong)
  from assms(2) t obtain g5 g6 where
    s: "updatePlayer W H dt ts g4 = Some g5" "updateMonster W H dt ts g5 = Some g6"
    and r: "g' = (if elapsed (updateFlames W H dt ts g6) \<ge> GOAL_SECONDS
                            then (updateFlames W H dt ts g6)\<lparr>state := Won, status := ''won (press R)''\<rparr>
                            else updateFlames W H dt ts g6)"
    by (auto split: option.splits)
  have "elapsed (updateFlames W H dt ts g6) = elapsed g4"
    using updatePlayer_elapsed[OF s(1)] updateMonster_elapsed[OF s(2)] by (simp add: updateFlames_elapsed)
  also have "\<dots> = (ts - (if startTs g = 0 then ts else startTs g)) / 1000" by (simp add: g4_def)
  finally show ?thesis using assms(3) r by simp
qed

text \<open>
  Claim C5 at the round \<open>contactAtGoal\<close>. The player and the monster do not touch before
  the tick at 31010. In that tick the player walks into the monster, \<open>updateMonster\<close> finds
  the rectangles overlapping and sets the state to lost with the status "mauled"; the
  elapsed time is 30.01 seconds, and the end of the same tick sets the state to won. After
  the tick the rectangles overlap and the round is won.
\<close>

theorem tick_contact_then_won:
  "\<not> intersectsAABB (player contactAtGoal) (monster contactAtGoal) \<and>
   state contactAtGoal = Running \<and>
   updateMonster 900 560 (1 / 50) 31010 afterPlayer = Some afterMonster \<and>
   intersectsAABB (player afterMonster) (monster afterMonster) \<and>
   state afterMonster = Lost \<and>
   (\<exists>g. tick 900 560 31010 contactAtGoal = Some g \<and>
        intersectsAABB (player g) (monster g) \<and>
        state g = Won \<and> status g = ''won (press R)'')"
proof -
  have a: "\<not> intersectsAABB (player contactAtGoal) (monster contactAtGoal)" "state contactAtGoal = Running"
    by (simp_all add: contactAtGoal_def player0_def monster0_def intersectsAABB_def)
  have b: "intersectsAABB (player afterMonster) (monster afterMonster)" "state afterMonster = Lost"
    by (simp_all add: afterMonster_def afterPlayer_def contactAtGoal_def player0_def monster0_def
          intersectsAABB_def)
  from b(1) have c: "intersectsAABB (player (afterMonster\<lparr>state := Won, status := ''won (press R)''\<rparr>))
      (monster (afterMonster\<lparr>state := Won, status := ''won (press R)''\<rparr>))" by simp
  from a b c updateMonster_contactAtGoal tick_contactAtGoal show ?thesis by simp
qed

section \<open>The search for a free cell\<close>

lemma scanRow_Some:
  "scanRow nv tc dr dcs = Some f \<Longrightarrow>
     (\<exists>dc \<in> set dcs. f = (fst tc + dc, snd tc + dr)) \<and> inBounds nv (fst f) (snd f) \<and> \<not> isBlocked nv f"
  by (induction dcs) (auto simp add: Let_def split: if_splits)

lemma scanRow_None:
  "scanRow nv tc dr dcs = None \<Longrightarrow> \<forall>dc \<in> set dcs. isBlocked nv (fst tc + dc, snd tc + dr)"
  by (induction dcs) (auto simp add: Let_def isBlocked_def split: if_splits)

lemma scanRows_Some:
  "scanRows nv tc rad drs = Some f \<Longrightarrow>
     (\<exists>dr \<in> set drs. \<exists>dc \<in> {- rad..rad}. f = (fst tc + dc, snd tc + dr)) \<and>
     inBounds nv (fst f) (snd f) \<and> \<not> isBlocked nv f"
proof (induction drs)
  case Nil
  then show ?case by simp
next
  case (Cons dr drs)
  show ?case
  proof (cases "scanRow nv tc dr [- rad..rad]")
    case None
    with Cons show ?thesis by auto
  next
    case (Some g)
    with Cons.prems have "g = f" by simp
    with scanRow_Some[OF Some] show ?thesis by auto
  qed
qed

lemma scanRows_None:
  "scanRows nv tc rad drs = None \<Longrightarrow>
     \<forall>dr \<in> set drs. \<forall>dc \<in> {- rad..rad}. isBlocked nv (fst tc + dc, snd tc + dr)"
proof (induction drs)
  case Nil
  then show ?case by simp
next
  case (Cons dr drs)
  then have n: "scanRow nv tc dr [- rad..rad] = None" "scanRows nv tc rad drs = None"
    by (auto split: option.splits)
  from scanRow_None[OF n(1)] Cons.IH[OF n(2)] show ?case by auto
qed

lemma square_blocked:
  assumes "scanRows nv tc rad [- rad..rad] = None" "cheb g tc \<le> rad"
  shows "isBlocked nv g"
proof -
  from assms(2) have d: "fst g - fst tc \<in> {- rad..rad}" "snd g - snd tc \<in> {- rad..rad}"
    by (auto simp add: cheb_def)
  from scanRows_None[OF assms(1)]
  have "\<forall>dr \<in> {- rad..rad}. \<forall>dc \<in> {- rad..rad}. isBlocked nv (fst tc + dc, snd tc + dr)"
    by simp
  from bspec[OF bspec[OF this d(2)] d(1)] show ?thesis by simp
qed

lemma square_found:
  assumes "scanRows nv tc rad [- rad..rad] = Some f"
  shows "cheb f tc \<le> rad \<and> inBounds nv (fst f) (snd f) \<and> \<not> isBlocked nv f"
  using scanRows_Some[OF assms] by (auto simp add: cheb_def)

lemma scanRings_Some:
  "scanRings nv tc rads = Some f \<Longrightarrow>
     \<exists>pre rad post. rads = pre @ rad # post \<and>
       (\<forall>k \<in> set pre. scanRows nv tc k [- k..k] = None) \<and>
       scanRows nv tc rad [- rad..rad] = Some f"
proof (induction rads)
  case Nil
  then show ?case by simp
next
  case (Cons a rads)
  show ?case
  proof (cases "scanRows nv tc a [- a..a]")
    case None
    with Cons.prems have "scanRings nv tc rads = Some f" by simp
    from Cons.IH[OF this] obtain pre rad post where
      "rads = pre @ rad # post" "\<forall>k \<in> set pre. scanRows nv tc k [- k..k] = None"
      "scanRows nv tc rad [- rad..rad] = Some f" by blast
    with None have "a # rads = (a # pre) @ rad # post \<and>
       (\<forall>k \<in> set (a # pre). scanRows nv tc k [- k..k] = None) \<and>
       scanRows nv tc rad [- rad..rad] = Some f" by simp
    then show ?thesis by blast
  next
    case (Some g)
    with Cons.prems have "g = f" by simp
    with Some have "a # rads = [] @ a # rads \<and>
       (\<forall>k \<in> set []. scanRows nv tc k [- k..k] = None) \<and>
       scanRows nv tc a [- a..a] = Some f" by simp
    then show ?thesis by blast
  qed
qed

lemma scanRings_None:
  "scanRings nv tc rads = None \<Longrightarrow> \<forall>k \<in> set rads. scanRows nv tc k [- k..k] = None"
  by (induction rads) (auto split: option.splits)

lemma findFree_Some:
  assumes "findFree nv tc = Some f" "isBlocked nv tc"
  shows "inBounds nv (fst f) (snd f) \<and> \<not> isBlocked nv f \<and> 1 \<le> cheb f tc \<and> cheb f tc \<le> 4 \<and>
         (\<forall>g. \<not> isBlocked nv g \<longrightarrow> cheb f tc \<le> cheb g tc)"
proof -
  from scanRings_Some[OF assms(1)[unfolded findFree_def]] obtain pre rad post where
    split: "[1..4] = pre @ rad # post" and
    pre: "\<forall>k \<in> set pre. scanRows nv tc k [- k..k] = None" and
    a: "scanRows nv tc rad [- rad..rad] = Some f" by blast
  have "sorted_wrt (<) (pre @ rad # post)" using sorted_wrt_upto[of 1 4] split by simp
  then have post: "\<forall>k \<in> set post. rad < k" by (simp add: sorted_wrt_append)
  have mem: "set pre \<union> {rad} \<union> set post = {1..4}"
    using arg_cong[OF split, of set] by auto
  then have c: "1 \<le> rad" "rad \<le> 4" by auto
  have b: "scanRows nv tc k [- k..k] = None" if "1 \<le> k" "k < rad" for k
  proof -
    from that c have "k \<in> set pre \<union> {rad} \<union> set post" unfolding mem by simp
    with that post have "k \<in> set pre" by auto
    with pre show ?thesis by simp
  qed
  note sf = square_found[OF a]
  have ne: "f \<noteq> tc" using sf assms(2) by auto
  then have one: "1 \<le> cheb f tc" by (cases f, cases tc) (auto simp add: cheb_def)
  have "cheb f tc \<le> cheb g tc" if g: "\<not> isBlocked nv g" for g
  proof (rule ccontr)
    assume "\<not> cheb f tc \<le> cheb g tc"
    then have lt: "cheb g tc < rad" using sf by simp
    have "g \<noteq> tc" using g assms(2) by auto
    then have "1 \<le> cheb g tc" by (cases g, cases tc) (auto simp add: cheb_def)
    from b[OF this lt] have "scanRows nv tc (cheb g tc) [- cheb g tc..cheb g tc] = None" .
    from square_blocked[OF this] g show False by simp
  qed
  with sf one c show ?thesis by auto
qed

lemma findFree_None:
  assumes "findFree nv tc = None" "cheb g tc \<le> 4"
  shows "isBlocked nv g"
proof -
  have "(4::int) \<in> set [1..4]" by simp
  from square_blocked[OF bspec[OF scanRings_None[OF assms(1)[unfolded findFree_def]] this] assms(2)]
  show ?thesis .
qed

lemma scanRow_first:
  "scanRow nv tc dr dcs = Some f \<Longrightarrow>
     \<exists>pre dc post. dcs = pre @ dc # post \<and> f = (fst tc + dc, snd tc + dr) \<and>
       (\<forall>d \<in> set pre. isBlocked nv (fst tc + d, snd tc + dr))"
proof (induction dcs)
  case Nil
  then show ?case by simp
next
  case (Cons a dcs)
  show ?case
  proof (cases "isBlocked nv (fst tc + a, snd tc + dr)")
    case True
    with Cons.prems have "scanRow nv tc dr dcs = Some f"
      by (auto simp add: Let_def isBlocked_def split: if_splits)
    from Cons.IH[OF this] obtain pre dc post where
      "dcs = pre @ dc # post" "f = (fst tc + dc, snd tc + dr)"
      "\<forall>d \<in> set pre. isBlocked nv (fst tc + d, snd tc + dr)" by blast
    with True have "a # dcs = (a # pre) @ dc # post \<and> f = (fst tc + dc, snd tc + dr) \<and>
       (\<forall>d \<in> set (a # pre). isBlocked nv (fst tc + d, snd tc + dr))" by simp
    then show ?thesis by blast
  next
    case False
    with Cons.prems have "f = (fst tc + a, snd tc + dr)"
      by (auto simp add: Let_def isBlocked_def split: if_splits)
    then have "a # dcs = [] @ a # dcs \<and> f = (fst tc + a, snd tc + dr) \<and>
       (\<forall>d \<in> set []. isBlocked nv (fst tc + d, snd tc + dr))" by simp
    then show ?thesis by blast
  qed
qed

lemma scanRows_first:
  "scanRows nv tc rad drs = Some f \<Longrightarrow>
     \<exists>pre dr post. drs = pre @ dr # post \<and> scanRow nv tc dr [- rad..rad] = Some f \<and>
       (\<forall>d \<in> set pre. scanRow nv tc d [- rad..rad] = None)"
proof (induction drs)
  case Nil
  then show ?case by simp
next
  case (Cons a drs)
  show ?case
  proof (cases "scanRow nv tc a [- rad..rad]")
    case None
    with Cons.prems have "scanRows nv tc rad drs = Some f" by simp
    from Cons.IH[OF this] obtain pre dr post where
      "drs = pre @ dr # post" "scanRow nv tc dr [- rad..rad] = Some f"
      "\<forall>d \<in> set pre. scanRow nv tc d [- rad..rad] = None" by blast
    with None have "a # drs = (a # pre) @ dr # post \<and> scanRow nv tc dr [- rad..rad] = Some f \<and>
       (\<forall>d \<in> set (a # pre). scanRow nv tc d [- rad..rad] = None)" by simp
    then show ?thesis by blast
  next
    case (Some g)
    with Cons.prems have "g = f" by simp
    with Some have "a # drs = [] @ a # drs \<and> scanRow nv tc a [- rad..rad] = Some f \<and>
       (\<forall>d \<in> set []. scanRow nv tc d [- rad..rad] = None)" by simp
    then show ?thesis by blast
  qed
qed

lemma upto_split_less:
  assumes "[a..b] = pre @ x # post" "a \<le> y" "y \<le> b" "y \<notin> set pre"
  shows "x \<le> y"
proof -
  have "sorted_wrt (<) (pre @ x # post)" using sorted_wrt_upto[of a b] assms(1) by simp
  then have post: "\<forall>k \<in> set post. x < k" by (simp add: sorted_wrt_append)
  have "set pre \<union> {x} \<union> set post = {a..b}" using arg_cong[OF assms(1), of set] by auto
  with assms(2,3) have "y \<in> set pre \<union> {x} \<union> set post" by simp
  with assms(4) post show ?thesis by auto
qed

lemma square_first:
  assumes "scanRows nv tc rad [- rad..rad] = Some f" "\<not> isBlocked nv g" "cheb g tc \<le> rad"
  shows "snd f < snd g \<or> (snd f = snd g \<and> fst f \<le> fst g)"
proof -
  from assms(3) have d: "- rad \<le> fst g - fst tc" "fst g - fst tc \<le> rad"
    "- rad \<le> snd g - snd tc" "snd g - snd tc \<le> rad"
    by (auto simp add: cheb_def)
  from scanRows_first[OF assms(1)] obtain pre dr post where
    rows: "[- rad..rad] = pre @ dr # post" and row: "scanRow nv tc dr [- rad..rad] = Some f"
    and above: "\<forall>d \<in> set pre. scanRow nv tc d [- rad..rad] = None" by blast
  from scanRow_first[OF row] obtain pre' dc post' where
    cols: "[- rad..rad] = pre' @ dc # post'" and f: "f = (fst tc + dc, snd tc + dr)"
    and left: "\<forall>d \<in> set pre'. isBlocked nv (fst tc + d, snd tc + dr)" by blast
  have "snd g - snd tc \<notin> set pre"
  proof
    assume "snd g - snd tc \<in> set pre"
    with above have "scanRow nv tc (snd g - snd tc) [- rad..rad] = None" by simp
    from scanRow_None[OF this] have
      "\<forall>dc \<in> {- rad..rad}. isBlocked nv (fst tc + dc, snd tc + (snd g - snd tc))" by simp
    moreover from d(1,2) have "fst g - fst tc \<in> {- rad..rad}" by simp
    ultimately have "isBlocked nv (fst tc + (fst g - fst tc), snd tc + (snd g - snd tc))" by (rule bspec)
    with assms(2) show False by simp
  qed
  from upto_split_less[OF rows d(3,4) this] have r: "dr \<le> snd g - snd tc" .
  show ?thesis
  proof (cases "dr = snd g - snd tc")
    case True
    have "fst g - fst tc \<notin> set pre'"
    proof
      assume "fst g - fst tc \<in> set pre'"
      with left have "isBlocked nv (fst tc + (fst g - fst tc), snd tc + dr)" by (rule bspec)
      with assms(2) True show False by simp
    qed
    from upto_split_less[OF cols d(1,2) this] True f show ?thesis by simp
  next
    case False
    with r f show ?thesis by simp
  qed
qed

lemma findFree_first:
  assumes "findFree nv tc = Some f" "isBlocked nv tc" "\<not> isBlocked nv g" "cheb g tc \<le> cheb f tc"
  shows "snd f < snd g \<or> (snd f = snd g \<and> fst f \<le> fst g)"
proof -
  from scanRings_Some[OF assms(1)[unfolded findFree_def]] obtain pre rad post where
    a: "scanRows nv tc rad [- rad..rad] = Some f" by blast
  from square_found[OF a] assms(4) have "cheb g tc \<le> rad" by simp
  from square_first[OF a assms(3) this] show ?thesis .
qed

lemma floor_half: "\<lfloor>(real_of_int c * 22 + 11) / 22\<rfloor> = c"
proof -
  have "(real_of_int c * 22 + 11) / 22 = real_of_int c + 1 / 2" by simp
  then show ?thesis by (simp add: floor_unique)
qed

lemma pointToCell_cellCenter:
  "inBounds nv (fst cl) (snd cl) \<Longrightarrow> pointToCell nv (ptx (cellCenter cl)) (pty (cellCenter cl)) = cl"
  by (cases cl) (auto simp add: pointToCell_def cellCenter_def NAV_CELL_def floor_half clamp_def inBounds_def)

lemma retarget_free: "\<not> isBlocked nv cl \<Longrightarrow> retarget nv cl = cl"
  by (simp add: retarget_def)

lemma unblocked_inBounds: "\<not> isBlocked nv cl \<Longrightarrow> inBounds nv (fst cl) (snd cl)"
  by (simp add: isBlocked_def split: if_splits)

lemma buildPathTo_retargets:
  assumes "isBlocked nv (pointToCell nv tx ty)" "findFree nv (pointToCell nv tx ty) = Some f"
  shows "buildPathTo nv m tx ty = buildPathTo nv m (ptx (cellCenter f)) (pty (cellCenter f))"
proof -
  from findFree_Some[OF assms(2,1)] have f: "inBounds nv (fst f) (snd f)" "\<not> isBlocked nv f" by auto
  have "retarget nv (pointToCell nv tx ty) = f" using assms by (simp add: retarget_def)
  moreover have "retarget nv (pointToCell nv (ptx (cellCenter f)) (pty (cellCenter f))) = f"
    using f by (simp add: pointToCell_cellCenter retarget_free)
  ultimately show ?thesis by (simp add: buildPathTo_def)
qed

lemma buildPathTo_blocked:
  "isBlocked nv (pointToCell nv (rx m + rw m / 2) (ry m + rh m / 2)) \<or>
   isBlocked nv (retarget nv (pointToCell nv tx ty)) \<Longrightarrow> buildPathTo nv m tx ty = Some (False, m)"
  by (auto simp add: buildPathTo_def Let_def)

lemma nth_concat_uniform:
  "\<forall>xs \<in> set xss. length xs = n \<Longrightarrow> i < length xss \<Longrightarrow> j < n \<Longrightarrow> concat xss ! (i * n + j) = xss ! i ! j"
proof (induction xss arbitrary: i)
  case Nil
  then show ?case by simp
next
  case (Cons xs xss)
  show ?case
  proof (cases i)
    case 0
    with Cons.prems show ?thesis by (simp add: nth_append)
  next
    case (Suc k)
    with Cons.prems have "concat xss ! (k * n + j) = xss ! k ! j" by (intro Cons.IH) auto
    with Suc Cons.prems show ?thesis by (simp add: nth_append)
  qed
qed

lemma isBlocked_rebuild:
  "isBlocked (rebuildNavGrid W H) (c, r) =
     (\<not> inBounds (rebuildNavGrid W H) c r \<or> cellProbeBlocked W H c r)"
proof (cases "inBounds (rebuildNavGrid W H) c r")
  case False
  then show ?thesis by (simp add: isBlocked_def)
next
  case True
  define cols where "cols = \<lfloor>W / NAV_CELL\<rfloor>"
  define rows where "rows = \<lfloor>H / NAV_CELL\<rfloor>"
  from True have b: "0 \<le> c" "c < cols" "0 \<le> r" "r < rows"
    by (simp_all add: inBounds_def rebuildNavGrid_def Let_def cols_def rows_def)
  let ?xss = "map (\<lambda>r. map (\<lambda>c. cellProbeBlocked W H c r) [0..cols - 1]) [0..rows - 1]"
  have len: "\<forall>xs \<in> set ?xss. length xs = nat cols" using b by auto
  have "concat ?xss ! (nat r * nat cols + nat c) = ?xss ! nat r ! nat c"
    using b by (intro nth_concat_uniform[OF len]) auto
  also have "\<dots> = cellProbeBlocked W H c r" using b by simp
  finally have "concat ?xss ! nat (r * cols + c) = cellProbeBlocked W H c r"
    using b by (simp add: nat_add_distrib nat_mult_distrib)
  with True show ?thesis
    by (simp add: isBlocked_def rd_def navIdx_def rebuildNavGrid_def Let_def cols_def rows_def)
qed

lemma arena_dims: "NAV_COLS arena = 40" "NAV_ROWS arena = 25"
  by (simp_all add: arena_def rebuildNavGrid_def NAV_CELL_def Let_def)

lemma arena_blocked: "isBlocked arena (c, r) = (\<not> inBounds arena c r \<or> cellProbeBlocked 900 560 c r)"
  unfolding arena_def by (rule isBlocked_rebuild)

lemma arena_cells: "\<not> isBlocked arena (38, 23)" "isBlocked arena (39, 24)" "\<not> isBlocked arena (36, 21)"
  by (simp_all add: arena_blocked inBounds_def arena_dims cellProbeBlocked_def walls_def mkrect_def
        intersectsAABB_def NAV_CELL_def)

lemmas cellEval = arena_blocked inBounds_def arena_dims cellProbeBlocked_def walls_def mkrect_def
  intersectsAABB_def NAV_CELL_def

lemma findFree_corner: "findFree arena (39, 24) = Some (38, 23)"
  by (simp add: findFree_def upto_rec1 Let_def cellEval)

lemma start_cell: "pointToCell arena (rx (monster0 900 560) + rw (monster0 900 560) / 2)
     (ry (monster0 900 560) + rh (monster0 900 560) / 2) = (36, 21)"
  by (simp add: pointToCell_def monster0_def arena_dims NAV_CELL_def clamp_def)

lemma target_cell: "pointToCell arena 895 555 = (39, 24)"
  by (simp add: pointToCell_def arena_dims NAV_CELL_def clamp_def)

lemma retarget_corner: "retarget arena (39, 24) = (38, 23)"
  using arena_cells by (simp add: retarget_def findFree_corner)

lemma wall_cells: "isBlocked arena (34, 21)" "\<not> isBlocked arena (33, 20)" "\<not> isBlocked arena (33, 21)"
  by (simp_all add: cellEval)

lemma findFree_wall: "findFree arena (34, 21) = Some (33, 20)"
  by (simp add: findFree_def upto_rec1 Let_def cellEval)

lemma wall_target_cell: "pointToCell arena 759 473 = (34, 21)"
  by (simp add: pointToCell_def arena_dims NAV_CELL_def clamp_def)

lemma retarget_wall: "retarget arena (34, 21) = (33, 20)"
  using wall_cells by (simp add: retarget_def findFree_wall)

section \<open>The path finder: validity of the path\<close>

lemma cellOf_navIdx: "inBounds nv c r \<Longrightarrow> cellOf nv (navIdx nv c r) = (c, r)"
  by (simp add: cellOf_def navIdx_def inBounds_def)

lemma navIdx_range:
  assumes "inBounds nv c r"
  shows "0 \<le> navIdx nv c r \<and> navIdx nv c r < cellCount nv"
proof -
  from assms have a: "0 \<le> c" "0 \<le> r" "c < NAV_COLS nv" "r < NAV_ROWS nv" by (simp_all add: inBounds_def)
  have "r * NAV_COLS nv + c < (r + 1) * NAV_COLS nv" using a by (simp add: algebra_simps)
  also have "\<dots> \<le> NAV_ROWS nv * NAV_COLS nv" using a by (intro mult_right_mono) auto
  finally have "navIdx nv c r < cellCount nv" by (simp add: navIdx_def cellCount_def mult.commute)
  moreover have "0 \<le> navIdx nv c r" using a by (simp add: navIdx_def)
  ultimately show ?thesis by simp
qed

lemma rd_wr: "0 \<le> j \<Longrightarrow> rd (wr a i v) j = (if i = j \<and> i < int (length a) then v else rd a j)"
  by (auto simp add: rd_def wr_def nat_eq_iff)

lemma adjacent4_dirs: "d \<in> set dirs \<Longrightarrow> adjacent4 (cc, cr) (cc + fst d, cr + snd d)"
  by (auto simp add: dirs_def adjacent4_def)

lemma relax_inv:
  assumes "searchInv nv s" "0 \<le> cur" "cur < cellCount nv" "cellOf nv cur = (cc, cr)" "d \<in> set dirs"
  shows "searchInv nv (relax nv goal cur cc cr d s)"
proof -
  let ?nc = "cc + fst d" and ?nr = "cr + snd d"
  let ?ni = "navIdx nv ?nc ?nr"
  show ?thesis
  proof (cases "inBounds nv ?nc ?nr \<and> \<not> isBlocked nv (?nc, ?nr) \<and> \<not> rd (inClosed s) ?ni \<and>
      rd (gScore s) cur + 1 < rd (gScore s) ?ni")
    case False
    then show ?thesis using assms(1) by (auto simp add: relax_def Let_def)
  next
    case True
    then have ib: "inBounds nv ?nc ?nr" and free: "\<not> isBlocked nv (?nc, ?nr)" by auto
    note rng = navIdx_range[OF ib]
    have lk: "linksOK nv (wr (cameFrom s) ?ni cur)"
      unfolding linksOK_def
    proof (intro allI impI)
      fix n assume n: "0 \<le> n \<and> n < cellCount nv" and ne: "rd (wr (cameFrom s) ?ni cur) n \<noteq> - 1"
      show "0 \<le> rd (wr (cameFrom s) ?ni cur) n \<and> rd (wr (cameFrom s) ?ni cur) n < cellCount nv \<and>
        \<not> isBlocked nv (cellOf nv n) \<and> adjacent4 (cellOf nv (rd (wr (cameFrom s) ?ni cur) n)) (cellOf nv n)"
      proof (cases "?ni = n \<and> ?ni < int (length (cameFrom s))")
        case True
        then have "rd (wr (cameFrom s) ?ni cur) n = cur" using n by (simp add: rd_wr)
        moreover have "cellOf nv n = (?nc, ?nr)" using True cellOf_navIdx[OF ib] by auto
        ultimately show ?thesis using assms(2,3,4) free adjacent4_dirs[OF assms(5)] by simp
      next
        case False
        then have "rd (wr (cameFrom s) ?ni cur) n = rd (cameFrom s) n" using n by (auto simp add: rd_wr)
        with assms(1) n ne show ?thesis by (simp add: searchInv_def linksOK_def)
      qed
    qed
    from True lk assms(1) rng show ?thesis
      by (auto simp add: relax_def Let_def searchInv_def)
  qed
qed

lemma fold_relax_inv:
  assumes "searchInv nv s" "0 \<le> cur" "cur < cellCount nv" "cellOf nv cur = (cc, cr)" "set ds \<subseteq> set dirs"
  shows "searchInv nv (fold (relax nv goal cur cc cr) ds s)"
  using assms by (induction ds arbitrary: s) (simp_all add: relax_inv)

lemma bestScan_lt:
  "bestI < length ol \<Longrightarrow> \<forall>i \<in> set cands. i < length ol \<Longrightarrow> bestScan fs ol bestI cands < length ol"
  by (induction cands arbitrary: bestI) simp_all

lemma reconstruct_chain_aux:
  assumes "reconstruct nv0 cf0 cur0 acc0 = Some res0"
  shows "linksOK nv0 cf0 \<longrightarrow> (cur0 = - 1 \<or> (0 \<le> cur0 \<and> cur0 < cellCount nv0)) \<longrightarrow>
     (\<exists>chain. res0 = acc0 @ chain \<and> chainOK nv0 chain \<and> (cur0 = - 1 \<longrightarrow> chain = []) \<and>
           (cur0 \<noteq> - 1 \<longrightarrow> chain \<noteq> [] \<and> hd chain = cellOf nv0 cur0))"
proof (rule reconstruct.raw_induct[where P = "\<lambda>nv cf cur acc res.
     linksOK nv cf \<longrightarrow> (cur = - 1 \<or> (0 \<le> cur \<and> cur < cellCount nv)) \<longrightarrow>
     (\<exists>chain. res = acc @ chain \<and> chainOK nv chain \<and> (cur = - 1 \<longrightarrow> chain = []) \<and>
           (cur \<noteq> - 1 \<longrightarrow> chain \<noteq> [] \<and> hd chain = cellOf nv cur))", OF _ assms], goal_cases)
  case (1 rec nv cf cur acc res)
  show ?case
  proof (intro impI)
    assume lk: "linksOK nv cf" and cr: "cur = - 1 \<or> (0 \<le> cur \<and> cur < cellCount nv)"
    show "\<exists>chain. res = acc @ chain \<and> chainOK nv chain \<and> (cur = - 1 \<longrightarrow> chain = []) \<and>
           (cur \<noteq> - 1 \<longrightarrow> chain \<noteq> [] \<and> hd chain = cellOf nv cur)"
    proof (cases "cur = - 1")
      case True
      with 1(2) show ?thesis by simp
    next
      case False
      with cr have rng: "0 \<le> cur" "cur < cellCount nv" by auto
      let ?next = "rd cf cur"
      from False 1(2) have rec: "rec nv cf ?next (acc @ [cellOf nv cur]) = Some res"
        by (simp add: Let_def cellOf_def split: if_splits)
      have nx: "?next = - 1 \<or> (0 \<le> ?next \<and> ?next < cellCount nv)"
        using lk rng by (auto simp add: linksOK_def)
      from 1(1)[OF rec] lk nx obtain chain where
        ch: "res = (acc @ [cellOf nv cur]) @ chain" "chainOK nv chain" "?next = - 1 \<longrightarrow> chain = []"
          "?next \<noteq> - 1 \<longrightarrow> chain \<noteq> [] \<and> hd chain = cellOf nv ?next" by blast
      have "chainOK nv (cellOf nv cur # chain)"
      proof (cases chain)
        case Nil
        then show ?thesis by simp
      next
        case (Cons b rest)
        with ch(3) have ne: "?next \<noteq> - 1" by auto
        with ch(4) Cons have b: "b = cellOf nv ?next" by simp
        from lk rng ne have "\<not> isBlocked nv (cellOf nv cur)" "adjacent4 (cellOf nv ?next) (cellOf nv cur)"
          by (auto simp add: linksOK_def)
        with ch(2) Cons b show ?thesis by simp
      qed
      with ch(1) False show ?thesis by simp
    qed
  qed
qed

lemma aStarLoop_good_aux:
  assumes "aStarLoop nv0 goal0 s0 = Some res0"
  shows "searchInv nv0 s0 \<longrightarrow> inBounds nv0 (fst goal0) (snd goal0) \<longrightarrow>
     (\<forall>cells. res0 = Some cells \<longrightarrow> goodPath nv0 goal0 cells)"
proof (rule aStarLoop.raw_induct[where P = "\<lambda>nv goal s res.
     searchInv nv s \<longrightarrow> inBounds nv (fst goal) (snd goal) \<longrightarrow>
     (\<forall>cells. res = Some cells \<longrightarrow> goodPath nv goal cells)", OF _ assms], goal_cases)
  case (1 loop nv goal s res)
  show ?case
  proof (intro impI allI)
    fix cells
    assume inv: "searchInv nv s" and gb: "inBounds nv (fst goal) (snd goal)" and res: "res = Some cells"
    from 1(2) res have ne: "openList s \<noteq> []" by (auto split: if_splits)
    define bestI where "bestI = bestScan (fScore s) (openList s) 0 [1..<length (openList s)]"
    define cur where "cur = openList s ! bestI"
    define s1 where "s1 = s\<lparr>openList := take bestI (openList s) @ drop (Suc bestI) (openList s),
                     inOpen := wr (inOpen s) cur False, inClosed := wr (inClosed s) cur True\<rparr>"
    have lt: "bestI < length (openList s)" unfolding bestI_def using ne by (intro bestScan_lt) auto
    then have "cur \<in> set (openList s)" by (simp add: cur_def)
    with inv have rng: "0 \<le> cur" "cur < cellCount nv" by (auto simp add: searchInv_def)
    have "set (openList s1) \<subseteq> set (openList s)"
      unfolding s1_def using set_take_subset[of bestI "openList s"] set_drop_subset[of "Suc bestI" "openList s"]
      by auto
    with inv have inv1: "searchInv nv s1" by (auto simp add: searchInv_def s1_def)
    have eq: "(if cur = navIdx nv (fst goal) (snd goal) then
              (case reconstruct nv (cameFrom s1) cur [] of
                 None \<Rightarrow> None
               | Some found \<Rightarrow> Some (Some (rev found)))
            else if NAV_COLS nv = 0 then None
            else loop nv goal (fold (relax nv goal cur (cur - cur div NAV_COLS nv * NAV_COLS nv)
                   (cur div NAV_COLS nv)) dirs s1)) = Some res"
      using 1(2) ne by (simp only: Let_def bestI_def cur_def s1_def if_False)
    show "goodPath nv goal cells"
    proof (cases "cur = navIdx nv (fst goal) (snd goal)")
      case True
      with eq res obtain chain0 where r: "reconstruct nv (cameFrom s1) cur [] = Some chain0" "cells = rev chain0"
        by (auto split: option.splits)
      from inv1 have lk: "linksOK nv (cameFrom s1)" by (simp add: searchInv_def)
      from reconstruct_chain_aux[OF r(1)] lk rng obtain chain where
        "chain0 = [] @ chain" "chainOK nv chain" "cur \<noteq> - 1 \<longrightarrow> chain \<noteq> [] \<and> hd chain = cellOf nv cur" by blast
      with rng True cellOf_navIdx[OF gb] r(2) show ?thesis by (auto simp add: goodPath_def)
    next
      case False
      with eq have cols: "NAV_COLS nv \<noteq> 0"
        by (auto split: if_splits)
      with False eq have rec: "loop nv goal (fold (relax nv goal cur (cur - cur div NAV_COLS nv * NAV_COLS nv)
           (cur div NAV_COLS nv)) dirs s1) = Some res"
        by simp
      have "searchInv nv (fold (relax nv goal cur (cur - cur div NAV_COLS nv * NAV_COLS nv)
           (cur div NAV_COLS nv)) dirs s1)"
        by (rule fold_relax_inv[OF inv1 rng]) (simp_all add: cellOf_def)
      with 1(1)[OF rec] gb res show ?thesis by blast
    qed
  qed
qed

lemma rd_replicate: "0 \<le> k \<Longrightarrow> k < int n \<Longrightarrow> rd (replicate n v) k = v"
  by (simp add: rd_def)

lemma aStarInit_inv:
  assumes "inBounds nv (fst start) (snd start)"
  shows "searchInv nv (aStarInit nv start goal)"
proof -
  have "linksOK nv (replicate (nat (NAV_COLS nv * NAV_ROWS nv)) (- 1))"
    by (simp add: linksOK_def cellCount_def rd_replicate)
  with navIdx_range[OF assms] show ?thesis
    by (simp add: searchInv_def aStarInit_def Let_def)
qed

lemma aStar_good:
  assumes "aStar nv start goal = Some (Some cells)" "inBounds nv (fst start) (snd start)"
    "inBounds nv (fst goal) (snd goal)"
  shows "goodPath nv goal cells"
  using aStarLoop_good_aux[OF assms(1)[unfolded aStar_def]] aStarInit_inv[OF assms(2)] assms(3) by blast

lemma stepwise_snoc: "stepwise (xs @ [b, a]) = (stepwise (xs @ [b]) \<and> adjacent4 b a)"
  by (induction xs rule: stepwise.induct) auto

lemma chainOK_stepwise: "chainOK nv chain \<Longrightarrow> stepwise (rev chain)"
proof (induction nv chain rule: chainOK.induct)
  case (1 nv a b rest)
  then show ?case using stepwise_snoc[of "rev rest" b a] by simp
qed simp_all

lemma chainOK_free: "chainOK nv chain \<Longrightarrow> \<forall>cl \<in> set (butlast chain). \<not> isBlocked nv cl"
  by (induction nv chain rule: chainOK.induct) auto

lemma stepwise_tl: "stepwise xs \<Longrightarrow> stepwise (tl xs)"
  by (induction xs rule: stepwise.induct) auto

lemma buildPathTo_cells:
  assumes "buildPathTo nv m tx ty = Some (True, m')"
  shows "\<exists>cells. path m' = map cellCenter cells \<and> cells \<noteq> [] \<and> (\<forall>cl \<in> set cells. \<not> isBlocked nv cl) \<and>
           stepwise cells \<and> last cells = retarget nv (pointToCell nv tx ty) \<and>
           pathIdx m' = 0 \<and> lastTargetKey m' = Some (retarget nv (pointToCell nv tx ty))"
proof -
  let ?mc = "pointToCell nv (rx m + rw m / 2) (ry m + rh m / 2)"
  let ?tc = "retarget nv (pointToCell nv tx ty)"
  from assms have free: "\<not> isBlocked nv ?mc" "\<not> isBlocked nv ?tc"
    by (auto simp add: buildPathTo_def Let_def split: if_splits)
  with assms obtain cells where a: "aStar nv ?mc ?tc = Some (Some cells)" "2 \<le> length cells"
    and m': "m' = m\<lparr>path := map cellCenter (tl cells), pathIdx := 0, lastTargetKey := Some ?tc\<rparr>"
    by (auto simp add: buildPathTo_def Let_def split: if_splits option.splits)
  from aStar_good[OF a(1) unblocked_inBounds[OF free(1)] unblocked_inBounds[OF free(2)]]
  obtain chain where ch: "cells = rev chain" "chain \<noteq> []" "hd chain = ?tc" "chainOK nv chain"
    by (auto simp add: goodPath_def)
  have "butlast chain = rev (tl (rev chain))" using butlast_rev[of "rev chain"] by simp
  then have tl: "tl cells = rev (butlast chain)" using ch(1) by simp
  from a(2) have ne: "tl cells \<noteq> []" by (cases cells) auto
  have "last (tl cells) = last cells" using ne by (simp add: last_tl)
  also have "\<dots> = ?tc" using ch by (simp add: last_rev)
  finally have l: "last (tl cells) = ?tc" .
  have "stepwise (tl cells)" using chainOK_stepwise[OF ch(4)] ch(1) by (simp add: stepwise_tl)
  moreover have "\<forall>cl \<in> set (tl cells). \<not> isBlocked nv cl" using chainOK_free[OF ch(4)] tl by simp
  ultimately show ?thesis using m' ne l by auto
qed

section \<open>The path finder: every request returns\<close>

lemma length_wr: "length (wr a i v) = length a"
  by (simp add: wr_def)

lemma reconstruct_total:
  assumes lk: "linksOK nv cf" and g0: "\<forall>n. 0 \<le> n \<and> n < cellCount nv \<longrightarrow> (0::int) \<le> rd gs n"
    and dec: "\<forall>n. 0 \<le> n \<and> n < cellCount nv \<longrightarrow> rd cf n \<noteq> - 1 \<longrightarrow> rd gs (rd cf n) < rd gs n"
    and cols: "NAV_COLS nv \<noteq> 0"
  shows "cur = - 1 \<or> (0 \<le> cur \<and> cur < cellCount nv) \<Longrightarrow> \<exists>res. reconstruct nv cf cur acc = Some res"
proof (induction "if cur = - 1 then 0 else Suc (nat (rd gs cur))" arbitrary: cur acc rule: less_induct)
  case less
  show ?case
  proof (cases "cur = - 1")
    case True
    then show ?thesis by (subst reconstruct.simps) simp
  next
    case False
    with less.prems have rng: "0 \<le> cur" "cur < cellCount nv" by auto
    let ?next = "rd cf cur"
    have nx: "?next = - 1 \<or> (0 \<le> ?next \<and> ?next < cellCount nv)"
      using lk rng by (auto simp add: linksOK_def)
    have "(if ?next = - 1 then 0 else Suc (nat (rd gs ?next))) < (if cur = - 1 then 0 else Suc (nat (rd gs cur)))"
    proof (cases "?next = - 1")
      case True
      with False show ?thesis by simp
    next
      case nf: False
      with nx have "0 \<le> rd gs ?next" using g0 by auto
      moreover have "rd gs ?next < rd gs cur" using dec rng nf by auto
      ultimately show ?thesis using False nf by simp
    qed
    from less.hyps[OF this nx] obtain res where
      "reconstruct nv cf ?next (acc @ [(cur - cur div NAV_COLS nv * NAV_COLS nv, cur div NAV_COLS nv)]) = Some res"
      by blast
    with False cols show ?thesis by (subst reconstruct.simps) (simp add: Let_def)
  qed
qed

lemma relax_wf:
  assumes "searchWf nv s" "0 \<le> cur" "cur < cellCount nv"
  shows "searchWf nv (relax nv goal cur cc cr d s) \<and>
         inClosed (relax nv goal cur cc cr d s) = inClosed s"
proof -
  let ?nc = "cc + fst d" and ?nr = "cr + snd d"
  let ?ni = "navIdx nv ?nc ?nr"
  let ?t = "rd (gScore s) cur + 1"
  show ?thesis
  proof (cases "inBounds nv ?nc ?nr \<and> \<not> isBlocked nv (?nc, ?nr) \<and> \<not> rd (inClosed s) ?ni \<and>
      ?t < rd (gScore s) ?ni")
    case False
    then show ?thesis using assms(1) by (auto simp add: relax_def Let_def)
  next
    case True
    then have ib: "inBounds nv ?nc ?nr" and nc: "\<not> rd (inClosed s) ?ni" and lt: "?t < rd (gScore s) ?ni"
      by auto
    note rng = navIdx_range[OF ib]
    from assms(1) have len: "length (gScore s) = nat (cellCount nv)" "length (cameFrom s) = nat (cellCount nv)"
      "length (inOpen s) = nat (cellCount nv)" "length (inClosed s) = nat (cellCount nv)"
      by (simp_all add: searchWf_def)
    from assms(1) have g0: "\<And>n. 0 \<le> n \<Longrightarrow> n < cellCount nv \<Longrightarrow> 0 \<le> rd (gScore s) n"
      and dec: "\<And>n. 0 \<le> n \<Longrightarrow> n < cellCount nv \<Longrightarrow> rd (cameFrom s) n \<noteq> - 1 \<Longrightarrow>
           rd (gScore s) (rd (cameFrom s) n) < rd (gScore s) n"
      and op: "\<And>i. i \<in> set (openList s) \<Longrightarrow> 0 \<le> i \<and> i < cellCount nv \<and> rd (inOpen s) i \<and> \<not> rd (inClosed s) i"
      and dist: "distinct (openList s)"
      by (simp_all add: searchWf_def)
    have inr: "?ni < int (length (gScore s))" "?ni < int (length (cameFrom s))" "?ni < int (length (inOpen s))"
      using rng len by simp_all
    have ne: "?ni \<noteq> cur" using lt by auto
    let ?g = "wr (gScore s) ?ni ?t" and ?cf = "wr (cameFrom s) ?ni cur"
    have gval: "rd ?g n = (if n = ?ni then ?t else rd (gScore s) n)" if "0 \<le> n" for n
      using that inr by (auto simp add: rd_wr)
    have cval: "rd ?cf n = (if n = ?ni then cur else rd (cameFrom s) n)" if "0 \<le> n" for n
      using that inr by (auto simp add: rd_wr)
    have gle: "rd ?g n \<le> rd (gScore s) n" if "0 \<le> n" for n
      using that lt by (simp add: gval)
    have g0': "0 \<le> rd ?g n" if "0 \<le> n" "n < cellCount nv" for n
      using that g0[of n] g0[OF assms(2,3)] by (simp add: gval)
    have dec': "rd ?g (rd ?cf n) < rd ?g n" if n: "0 \<le> n" "n < cellCount nv" "rd ?cf n \<noteq> - 1" for n
    proof (cases "n = ?ni")
      case True
      then show ?thesis using n assms(2) ne by (simp add: gval cval)
    next
      case False
      with n have c: "rd ?cf n = rd (cameFrom s) n" "rd (cameFrom s) n \<noteq> - 1" by (simp_all add: cval)
      have "rd (gScore s) (rd (cameFrom s) n) < rd (gScore s) n" using dec n c by simp
      moreover have "rd ?g n = rd (gScore s) n" using False n by (simp add: gval)
      moreover have "rd ?g (rd (cameFrom s) n) \<le> rd (gScore s) (rd (cameFrom s) n)"
      proof (cases "0 \<le> rd (cameFrom s) n")
        case True
        then show ?thesis by (rule gle)
      next
        case neg: False
        then have "nat (rd (cameFrom s) n) = 0" by simp
        then have "rd ?g (rd (cameFrom s) n) = rd ?g 0" "rd (gScore s) (rd (cameFrom s) n) = rd (gScore s) 0"
          by (simp_all add: rd_def)
        with gle[of 0] show ?thesis by simp
      qed
      ultimately show ?thesis using c by simp
    qed
    have opn: "rd (wr (inOpen s) ?ni True) i" if "i \<in> set (openList s) \<or> i = ?ni" for i
      using that op[of i] inr rng by (auto simp add: rd_wr)
    show ?thesis
    proof (cases "rd (inOpen s) ?ni")
      case True
      from True \<open>inBounds nv ?nc ?nr \<and> _\<close> have
        eq: "relax nv goal cur cc cr d s = s\<lparr>cameFrom := ?cf, gScore := ?g,
            fScore := wr (fScore s) ?ni (?t + manhattan goal ?nc ?nr)\<rparr>"
        by (simp add: relax_def Let_def)
      show ?thesis unfolding eq
        using len dist op g0' dec' by (auto simp add: searchWf_def length_wr)
    next
      case False
      from False \<open>inBounds nv ?nc ?nr \<and> _\<close> have
        eq: "relax nv goal cur cc cr d s = s\<lparr>cameFrom := ?cf, gScore := ?g,
            fScore := wr (fScore s) ?ni (?t + manhattan goal ?nc ?nr),
            openList := openList s @ [?ni], inOpen := wr (inOpen s) ?ni True\<rparr>"
        by (simp add: relax_def Let_def)
      have notin: "?ni \<notin> set (openList s)" using op False by auto
      show ?thesis unfolding eq
        using len dist op g0' dec' notin nc opn rng
        by (auto simp add: searchWf_def length_wr)
    qed
  qed
qed

lemma fold_relax_wf:
  assumes "searchWf nv s" "0 \<le> cur" "cur < cellCount nv"
  shows "searchWf nv (fold (relax nv goal cur cc cr) ds s) \<and>
         inClosed (fold (relax nv goal cur cc cr) ds s) = inClosed s"
  using assms(1)
proof (induction ds arbitrary: s)
  case Nil
  then show ?case by simp
next
  case (Cons d ds)
  from relax_wf[OF Cons.prems assms(2,3), of goal cc cr d]
  have a: "searchWf nv (relax nv goal cur cc cr d s)" "inClosed (relax nv goal cur cc cr d s) = inClosed s"
    by simp_all
  from Cons.IH[OF a(1)] a(2) show ?case by simp
qed

lemma pop_wf:
  assumes wf: "searchWf nv s" and lt: "bestI < length (openList s)"
  defines "cur \<equiv> openList s ! bestI"
  defines "s1 \<equiv> s\<lparr>openList := take bestI (openList s) @ drop (Suc bestI) (openList s),
                     inOpen := wr (inOpen s) cur False, inClosed := wr (inClosed s) cur True\<rparr>"
  shows "searchWf nv s1 \<and> 0 \<le> cur \<and> cur < cellCount nv \<and> \<not> rd (inClosed s) cur \<and>
         rd (inClosed s1) cur \<and>
         (\<forall>i. 0 \<le> i \<and> i \<noteq> cur \<longrightarrow> rd (inClosed s1) i = rd (inClosed s) i)"
proof -
  from wf have len: "length (inOpen s) = nat (cellCount nv)" "length (inClosed s) = nat (cellCount nv)"
    and dist: "distinct (openList s)"
    and op: "\<And>i. i \<in> set (openList s) \<Longrightarrow> 0 \<le> i \<and> i < cellCount nv \<and> rd (inOpen s) i \<and> \<not> rd (inClosed s) i"
    by (simp_all add: searchWf_def)
  have mem: "cur \<in> set (openList s)" using lt by (simp add: cur_def)
  note c = op[OF mem]
  have inr: "cur < int (length (inOpen s))" "cur < int (length (inClosed s))" using c len by simp_all
  have split: "openList s = take bestI (openList s) @ cur # drop (Suc bestI) (openList s)"
    using lt by (simp add: cur_def id_take_nth_drop)
  have "distinct (take bestI (openList s) @ cur # drop (Suc bestI) (openList s))"
    by (subst split[symmetric]) (rule dist)
  then have d2: "distinct (take bestI (openList s) @ drop (Suc bestI) (openList s))"
    and notin: "cur \<notin> set (take bestI (openList s) @ drop (Suc bestI) (openList s))"
    by auto
  have sub: "set (take bestI (openList s) @ drop (Suc bestI) (openList s)) \<subseteq> set (openList s)"
    using set_take_subset[of bestI "openList s"] set_drop_subset[of "Suc bestI" "openList s"] by auto
  have rest: "0 \<le> i \<and> i < cellCount nv \<and> rd (wr (inOpen s) cur False) i \<and> \<not> rd (wr (inClosed s) cur True) i"
    if "i \<in> set (take bestI (openList s) @ drop (Suc bestI) (openList s))" for i
  proof -
    from that notin have "i \<noteq> cur" by auto
    moreover from that sub have "i \<in> set (openList s)" by auto
    ultimately show ?thesis using op[of i] by (auto simp add: rd_wr)
  qed
  have "searchWf nv s1"
    using wf d2 rest unfolding searchWf_def s1_def by (simp add: length_wr)
  moreover have "rd (inClosed s1) cur" using c inr by (simp add: s1_def rd_wr)
  moreover have "\<forall>i. 0 \<le> i \<and> i \<noteq> cur \<longrightarrow> rd (inClosed s1) i = rd (inClosed s) i"
    by (auto simp add: s1_def rd_wr)
  ultimately show ?thesis using c by simp
qed

lemma aStarLoop_total:
  "searchWf nv s \<Longrightarrow> searchInv nv s \<Longrightarrow> \<exists>res. aStarLoop nv goal s = Some res"
proof (induction "openCount nv s" arbitrary: s rule: less_induct)
  case less
  show ?case
  proof (cases "openList s = []")
    case True
    then show ?thesis by (subst aStarLoop.simps) simp
  next
    case ne: False
    define bestI where "bestI = bestScan (fScore s) (openList s) 0 [1..<length (openList s)]"
    define cur where "cur = openList s ! bestI"
    define s1 where "s1 = s\<lparr>openList := take bestI (openList s) @ drop (Suc bestI) (openList s),
                     inOpen := wr (inOpen s) cur False, inClosed := wr (inClosed s) cur True\<rparr>"
    have lt: "bestI < length (openList s)" unfolding bestI_def using ne by (intro bestScan_lt) auto
    from pop_wf[OF less.prems(1) lt, folded cur_def, folded s1_def]
    have wf1: "searchWf nv s1" and rng: "0 \<le> cur" "cur < cellCount nv"
      and nc: "\<not> rd (inClosed s) cur" and cl: "rd (inClosed s1) cur"
      and same: "\<And>i. 0 \<le> i \<Longrightarrow> i \<noteq> cur \<Longrightarrow> rd (inClosed s1) i = rd (inClosed s) i"
      by simp_all
    have "set (openList s1) \<subseteq> set (openList s)"
      unfolding s1_def using set_take_subset[of bestI "openList s"] set_drop_subset[of "Suc bestI" "openList s"]
      by auto
    with less.prems(2) have inv1: "searchInv nv s1" by (auto simp add: searchInv_def s1_def)
    have cols: "NAV_COLS nv \<noteq> 0" using rng by (auto simp add: cellCount_def)
    have unfold: "aStarLoop nv goal s =
        (if cur = navIdx nv (fst goal) (snd goal) then
              (case reconstruct nv (cameFrom s1) cur [] of
                 None \<Rightarrow> None
               | Some found \<Rightarrow> Some (Some (rev found)))
            else aStarLoop nv goal (fold (relax nv goal cur (cur - cur div NAV_COLS nv * NAV_COLS nv)
                   (cur div NAV_COLS nv)) dirs s1))"
      using ne cols by (subst aStarLoop.simps) (simp only: Let_def bestI_def cur_def s1_def if_False)
    show ?thesis
    proof (cases "cur = navIdx nv (fst goal) (snd goal)")
      case True
      from wf1 inv1 have "linksOK nv (cameFrom s1)"
        "\<forall>n. 0 \<le> n \<and> n < cellCount nv \<longrightarrow> 0 \<le> rd (gScore s1) n"
        "\<forall>n. 0 \<le> n \<and> n < cellCount nv \<longrightarrow> rd (cameFrom s1) n \<noteq> - 1 \<longrightarrow>
           rd (gScore s1) (rd (cameFrom s1) n) < rd (gScore s1) n"
        by (simp_all add: searchWf_def searchInv_def)
      from reconstruct_total[OF this cols, of cur "[]"] rng obtain found where
        "reconstruct nv (cameFrom s1) cur [] = Some found" by auto
      with True show ?thesis by (simp add: unfold)
    next
      case False
      let ?s' = "fold (relax nv goal cur (cur - cur div NAV_COLS nv * NAV_COLS nv) (cur div NAV_COLS nv)) dirs s1"
      from fold_relax_wf[OF wf1 rng] have wf': "searchWf nv ?s'" and cl': "inClosed ?s' = inClosed s1"
        by simp_all
      have inv': "searchInv nv ?s'"
        by (rule fold_relax_inv[OF inv1 rng]) (simp_all add: cellOf_def)
      let ?A = "{i. 0 \<le> i \<and> i < cellCount nv \<and> \<not> rd (inClosed s) i}"
      have fin: "finite ?A" by (rule finite_subset[of _ "{0..<cellCount nv}"]) auto
      have eqA: "{i. 0 \<le> i \<and> i < cellCount nv \<and> \<not> rd (inClosed ?s') i} = ?A - {cur}"
        unfolding cl' using cl same by auto
      have mem: "cur \<in> ?A" using rng nc by simp
      have "openCount nv ?s' = card (?A - {cur})" by (simp only: openCount_def eqA)
      also have "\<dots> < card ?A" by (rule card_Diff1_less[OF fin mem])
      finally have "openCount nv ?s' < openCount nv s" by (simp only: openCount_def)
      from less.hyps[OF this wf' inv'] False show ?thesis by (simp add: unfold)
    qed
  qed
qed

lemma aStarInit_wf:
  assumes "inBounds nv (fst start) (snd start)"
  shows "searchWf nv (aStarInit nv start goal)"
proof -
  note rng = navIdx_range[OF assms]
  let ?n = "nat (cellCount nv)"
  let ?si = "navIdx nv (fst start) (snd start)"
  have g: "0 \<le> rd (wr (replicate ?n 1000000000) ?si (0::int)) k" if "0 \<le> k" "k < cellCount nv" for k
    using that by (simp add: rd_wr rd_replicate)
  have o: "rd (wr (replicate ?n False) ?si True) ?si" using rng by (simp add: rd_wr)
  have c: "rd (replicate ?n (- 1 :: int)) k = - 1" "\<not> rd (replicate ?n False) k" if "0 \<le> k" "k < cellCount nv" for k
    using that by (simp_all add: rd_replicate)
  show ?thesis
    using g o c rng by (simp add: searchWf_def aStarInit_def Let_def length_wr cellCount_def)
qed

lemma aStar_total:
  "inBounds nv (fst start) (snd start) \<Longrightarrow> \<exists>res. aStar nv start goal = Some res"
  unfolding aStar_def by (intro aStarLoop_total aStarInit_wf aStarInit_inv)

lemma buildPathTo_total: "\<exists>res. buildPathTo nv m tx ty = Some res"
proof (cases "isBlocked nv (pointToCell nv (rx m + rw m / 2) (ry m + rh m / 2)) \<or>
   isBlocked nv (retarget nv (pointToCell nv tx ty))")
  case True
  from buildPathTo_blocked[OF True] show ?thesis by blast
next
  case False
  then have "inBounds nv (fst (pointToCell nv (rx m + rw m / 2) (ry m + rh m / 2)))
     (snd (pointToCell nv (rx m + rw m / 2) (ry m + rh m / 2)))"
    using unblocked_inBounds by blast
  from aStar_total[OF this] obtain res where
    "aStar nv (pointToCell nv (rx m + rw m / 2) (ry m + rh m / 2)) (retarget nv (pointToCell nv tx ty)) = Some res"
    by blast
  with False show ?thesis by (auto simp add: buildPathTo_def Let_def split: option.splits)
qed

section \<open>A request on the arena of 900 by 560\<close>

lemmas stepEval = relax_def dirs_def Let_def navIdx_def manhattan_def rd_def wr_def cellEval

lemma aStar_corner:
  "aStar arena (36, 21) (38, 23) = Some (Some [(36, 21), (37, 21), (38, 21), (38, 22), (38, 23)])"
  by (simp add: aStar_def aStarInit_def aStarLoop.simps reconstruct.simps stepEval cong: let_weak_cong)

lemma buildPathTo_corner: "buildPathTo arena (monster0 900 560) 895 555 =
   Some (True, (monster0 900 560)\<lparr>path := map cellCenter [(37, 21), (38, 21), (38, 22), (38, 23)],
      pathIdx := 0, lastTargetKey := Some (38, 23)\<rparr>)"
  using arena_cells by (simp add: buildPathTo_def Let_def start_cell target_cell retarget_corner aStar_corner)

lemma aStar_wall:
  "aStar arena (36, 21) (33, 20) =
     Some (Some [(36, 21), (36, 22), (35, 22), (34, 22), (33, 22), (33, 21), (33, 20)])"
  by (simp add: aStar_def aStarInit_def aStarLoop.simps reconstruct.simps stepEval cong: let_weak_cong)

lemma buildPathTo_wall: "buildPathTo arena (monster0 900 560) 759 473 =
   Some (True, (monster0 900 560)\<lparr>path := map cellCenter [(36, 22), (35, 22), (34, 22), (33, 22), (33, 21), (33, 20)],
      pathIdx := 0, lastTargetKey := Some (33, 20)\<rparr>)"
  using arena_cells wall_cells
  by (simp add: buildPathTo_def Let_def start_cell wall_target_cell retarget_wall aStar_wall)

section \<open>Path requests\<close>

text \<open>
  Claim C6 as it is stated, at a target point in the wall of the arena of 900 by 560
  below the middle: the cell \<open>(34, 21)\<close> of the point is blocked and the request is
  retargeted to the cell \<open>(33, 20)\<close>, the first free cell of the scan, although the cell
  \<open>(33, 21)\<close> next to the target cell is free and nearer to it, in steps and in a straight
  line. The path installed passes through \<open>(33, 21)\<close> and ends one cell further.
\<close>

theorem buildPathTo_retarget_not_nearest:
  "pointToCell arena 759 473 = (34, 21) \<and> isBlocked arena (34, 21) \<and>
   retarget arena (34, 21) = (33, 20) \<and>
   buildPathTo arena (monster0 900 560) 759 473 =
     Some (True, (monster0 900 560)\<lparr>path := map cellCenter [(36, 22), (35, 22), (34, 22), (33, 22), (33, 21), (33, 20)],
        pathIdx := 0, lastTargetKey := Some (33, 20)\<rparr>) \<and>
   \<not> isBlocked arena (33, 21) \<and>
   manhattan (34, 21) 33 21 < manhattan (34, 21) 33 20 \<and>
   cellDist2 (33, 21) (34, 21) < cellDist2 (33, 20) (34, 21)"
  using wall_cells
  by (simp add: wall_target_cell retarget_wall buildPathTo_wall manhattan_def cellDist2_def)

text \<open>
  Claim C6, amended. When the cell of the target point is blocked, \<open>buildPathTo\<close> scans
  the squares of radius 1 to 4 around it. A cell it finds is a free cell of the grid at
  the smallest radius that holds a free cell (the radius being the larger of the column and
  the row distance), and among the free cells within that radius the first one in the order
  of the scan, row by row and in a row column by column. The request goes on as the request
  for the centre of that cell: the grid search runs from the cell of the monster to that
  cell, and the request returns what that search gives, with that cell as the target key of
  an installed path. When the scan finds none, every cell within radius 4 is blocked and the
  request returns false with the monster unchanged; and every request whose start cell or
  final goal cell is blocked returns false with the monster unchanged. In every case the
  request returns.
\<close>

theorem buildPathTo_retargets_or_fails:
  assumes "isBlocked nv (pointToCell nv tx ty)"
  shows "(\<forall>f. findFree nv (pointToCell nv tx ty) = Some f \<longrightarrow>
            inBounds nv (fst f) (snd f) \<and> \<not> isBlocked nv f \<and>
            1 \<le> cheb f (pointToCell nv tx ty) \<and> cheb f (pointToCell nv tx ty) \<le> 4 \<and>
            (\<forall>g. \<not> isBlocked nv g \<longrightarrow> cheb f (pointToCell nv tx ty) \<le> cheb g (pointToCell nv tx ty)) \<and>
            (\<forall>g. \<not> isBlocked nv g \<and> cheb g (pointToCell nv tx ty) \<le> cheb f (pointToCell nv tx ty) \<longrightarrow>
                 snd f < snd g \<or> (snd f = snd g \<and> fst f \<le> fst g)) \<and>
            retarget nv (pointToCell nv tx ty) = f \<and>
            buildPathTo nv m tx ty = buildPathTo nv m (ptx (cellCenter f)) (pty (cellCenter f)) \<and>
            (\<not> isBlocked nv (pointToCell nv (rx m + rw m / 2) (ry m + rh m / 2)) \<longrightarrow>
               (\<exists>res. aStar nv (pointToCell nv (rx m + rw m / 2) (ry m + rh m / 2)) f = Some res \<and>
                  buildPathTo nv m tx ty =
                    (case res of
                       None \<Rightarrow> Some (False, m)
                     | Some cells \<Rightarrow>
                         if length cells < 2 then Some (False, m)
                         else Some (True, m\<lparr>path := map cellCenter (tl cells), pathIdx := 0,
                                             lastTargetKey := Some f\<rparr>))))) \<and>
         (findFree nv (pointToCell nv tx ty) = None \<longrightarrow>
            (\<forall>g. cheb g (pointToCell nv tx ty) \<le> 4 \<longrightarrow> isBlocked nv g) \<and>
            buildPathTo nv m tx ty = Some (False, m)) \<and>
         (isBlocked nv (pointToCell nv (rx m + rw m / 2) (ry m + rh m / 2)) \<or>
          isBlocked nv (retarget nv (pointToCell nv tx ty)) \<longrightarrow>
            buildPathTo nv m tx ty = Some (False, m)) \<and>
         (\<exists>res. buildPathTo nv m tx ty = Some res)"
proof -
  let ?tc = "pointToCell nv tx ty"
  let ?mc = "pointToCell nv (rx m + rw m / 2) (ry m + rh m / 2)"
  have a: "inBounds nv (fst f) (snd f) \<and> \<not> isBlocked nv f \<and>
            1 \<le> cheb f ?tc \<and> cheb f ?tc \<le> 4 \<and>
            (\<forall>g. \<not> isBlocked nv g \<longrightarrow> cheb f ?tc \<le> cheb g ?tc) \<and>
            (\<forall>g. \<not> isBlocked nv g \<and> cheb g ?tc \<le> cheb f ?tc \<longrightarrow>
                 snd f < snd g \<or> (snd f = snd g \<and> fst f \<le> fst g)) \<and>
            retarget nv ?tc = f \<and>
            buildPathTo nv m tx ty = buildPathTo nv m (ptx (cellCenter f)) (pty (cellCenter f)) \<and>
            (\<not> isBlocked nv ?mc \<longrightarrow>
               (\<exists>res. aStar nv ?mc f = Some res \<and>
                  buildPathTo nv m tx ty =
                    (case res of
                       None \<Rightarrow> Some (False, m)
                     | Some cells \<Rightarrow>
                         if length cells < 2 then Some (False, m)
                         else Some (True, m\<lparr>path := map cellCenter (tl cells), pathIdx := 0,
                                             lastTargetKey := Some f\<rparr>))))"
    if ff: "findFree nv ?tc = Some f" for f
  proof -
    note s = findFree_Some[OF ff assms]
    have r: "retarget nv ?tc = f" using ff assms by (simp add: retarget_def)
    have first: "\<forall>g. \<not> isBlocked nv g \<and> cheb g ?tc \<le> cheb f ?tc \<longrightarrow>
                 snd f < snd g \<or> (snd f = snd g \<and> fst f \<le> fst g)"
      using findFree_first[OF ff assms] by blast
    have run: "\<exists>res. aStar nv ?mc f = Some res \<and>
                  buildPathTo nv m tx ty =
                    (case res of
                       None \<Rightarrow> Some (False, m)
                     | Some cells \<Rightarrow>
                         if length cells < 2 then Some (False, m)
                         else Some (True, m\<lparr>path := map cellCenter (tl cells), pathIdx := 0,
                                             lastTargetKey := Some f\<rparr>))"
      if free: "\<not> isBlocked nv ?mc"
    proof -
      from aStar_total[OF unblocked_inBounds[OF free], of f] obtain res where
        res: "aStar nv ?mc f = Some res" by blast
      from free s have "buildPathTo nv m tx ty =
                    (case res of
                       None \<Rightarrow> Some (False, m)
                     | Some cells \<Rightarrow>
                         if length cells < 2 then Some (False, m)
                         else Some (True, m\<lparr>path := map cellCenter (tl cells), pathIdx := 0,
                                             lastTargetKey := Some f\<rparr>))"
        by (simp add: buildPathTo_def Let_def r res)
      with res show ?thesis by blast
    qed
    from s first r buildPathTo_retargets[OF assms ff, of m] run show ?thesis by blast
  qed
  have b: "(\<forall>g. cheb g ?tc \<le> 4 \<longrightarrow> isBlocked nv g) \<and> buildPathTo nv m tx ty = Some (False, m)"
    if "findFree nv ?tc = None"
  proof -
    have "retarget nv ?tc = ?tc" using that by (simp add: retarget_def)
    with assms have "buildPathTo nv m tx ty = Some (False, m)" by (simp add: buildPathTo_blocked)
    with findFree_None[OF that] show ?thesis by blast
  qed
  from a b buildPathTo_blocked[of nv m tx ty] buildPathTo_total[of nv m tx ty] show ?thesis by blast
qed

theorem buildPathTo_retargets_or_fails_witness:
  "isBlocked arena (pointToCell arena 895 555) \<and>
   findFree arena (pointToCell arena 895 555) = Some (38, 23) \<and>
   \<not> isBlocked arena (38, 23) \<and>
   cheb (38, 23) (pointToCell arena 895 555) = 1 \<and>
   buildPathTo arena (monster0 900 560) 895 555 =
     buildPathTo arena (monster0 900 560) (ptx (cellCenter (38, 23))) (pty (cellCenter (38, 23))) \<and>
   aStar arena (36, 21) (38, 23) = Some (Some [(36, 21), (37, 21), (38, 21), (38, 22), (38, 23)]) \<and>
   buildPathTo arena (monster0 900 560) 895 555 =
     Some (True, (monster0 900 560)\<lparr>path := map cellCenter [(37, 21), (38, 21), (38, 22), (38, 23)],
        pathIdx := 0, lastTargetKey := Some (38, 23)\<rparr>) \<and>
   isBlocked tinyArena (pointToCell tinyArena 30 30) \<and>
   findFree tinyArena (pointToCell tinyArena 30 30) = None \<and>
   buildPathTo tinyArena (monster0 44 44) 30 30 = Some (False, monster0 44 44)"
proof -
  have a: "isBlocked arena (pointToCell arena 895 555)" using arena_cells by (simp add: target_cell)
  have b: "findFree arena (pointToCell arena 895 555) = Some (38, 23)"
    by (simp add: target_cell findFree_corner)
  have d: "NAV_COLS tinyArena = 2" "NAV_ROWS tinyArena = 2"
    by (simp_all add: tinyArena_def rebuildNavGrid_def NAV_CELL_def Let_def)
  have e: "isBlocked tinyArena (c, r) = (\<not> inBounds tinyArena c r \<or> cellProbeBlocked 44 44 c r)" for c r
    unfolding tinyArena_def by (rule isBlocked_rebuild)
  have tc: "pointToCell tinyArena 30 30 = (1, 1)"
    by (simp add: pointToCell_def d NAV_CELL_def clamp_def)
  have f: "isBlocked tinyArena (pointToCell tinyArena 30 30)"
    by (simp add: tc e inBounds_def d cellProbeBlocked_def walls_def mkrect_def intersectsAABB_def NAV_CELL_def)
  have g: "findFree tinyArena (pointToCell tinyArena 30 30) = None"
    by (simp add: tc findFree_def upto_rec1 Let_def e inBounds_def d cellProbeBlocked_def walls_def mkrect_def
          intersectsAABB_def NAV_CELL_def)
  have free: "\<not> isBlocked arena (pointToCell arena (rx (monster0 900 560) + rw (monster0 900 560) / 2)
     (ry (monster0 900 560) + rh (monster0 900 560) / 2))"
    using arena_cells(3) by (simp add: start_cell)
  from buildPathTo_retargets_or_fails[OF a, of "monster0 900 560"] b
  have 1: "buildPathTo arena (monster0 900 560) 895 555 =
     buildPathTo arena (monster0 900 560) (ptx (cellCenter (38, 23))) (pty (cellCenter (38, 23)))"
    by blast
  from buildPathTo_retargets_or_fails[OF a, of "monster0 900 560"] b free
  obtain res where r: "aStar arena (pointToCell arena (rx (monster0 900 560) + rw (monster0 900 560) / 2)
     (ry (monster0 900 560) + rh (monster0 900 560) / 2)) (38, 23) = Some res"
    "buildPathTo arena (monster0 900 560) 895 555 =
       (case res of
          None \<Rightarrow> Some (False, monster0 900 560)
        | Some cells \<Rightarrow>
            if length cells < 2 then Some (False, monster0 900 560)
            else Some (True, (monster0 900 560)\<lparr>path := map cellCenter (tl cells), pathIdx := 0,
                                lastTargetKey := Some (38, 23)\<rparr>))"
    by blast
  from r(1) have res: "res = Some [(36, 21), (37, 21), (38, 21), (38, 22), (38, 23)]"
    by (simp add: start_cell aStar_corner)
  from r(2) have 4: "buildPathTo arena (monster0 900 560) 895 555 =
     Some (True, (monster0 900 560)\<lparr>path := map cellCenter [(37, 21), (38, 21), (38, 22), (38, 23)],
        pathIdx := 0, lastTargetKey := Some (38, 23)\<rparr>)"
    by (simp add: res)
  from buildPathTo_retargets_or_fails[OF f, of "monster0 44 44"] g
  have 2: "buildPathTo tinyArena (monster0 44 44) 30 30 = Some (False, monster0 44 44)" by blast
  have 3: "cheb (38, 23) (pointToCell arena 895 555) = 1" by (simp add: cheb_def target_cell)
  from a b f g arena_cells(1) 1 2 3 4 aStar_corner show ?thesis by blast
qed

text \<open>
  Claim C1. Every call of \<open>buildPathTo\<close> returns. Whenever it returns true, the waypoint
  list it installs is not empty, every waypoint is the centre of its cell and that cell is
  not blocked, the cells of consecutive waypoints are 4-adjacent, and the cell of the final
  waypoint is the requested goal cell, or the free cell the request was retargeted to.
\<close>

theorem buildPathTo_waypoints_valid:
  "(\<exists>res. buildPathTo nv m tx ty = Some res) \<and>
   (\<forall>m'. buildPathTo nv m tx ty = Some (True, m') \<longrightarrow>
      path m' \<noteq> [] \<and>
      (\<forall>p \<in> set (path m'). \<not> isBlocked nv (waypointCell nv p) \<and> p = cellCenter (waypointCell nv p)) \<and>
      stepwise (map (waypointCell nv) (path m')) \<and>
      waypointCell nv (last (path m')) = retarget nv (pointToCell nv tx ty))"
proof -
  have "path m' \<noteq> [] \<and>
      (\<forall>p \<in> set (path m'). \<not> isBlocked nv (waypointCell nv p) \<and> p = cellCenter (waypointCell nv p)) \<and>
      stepwise (map (waypointCell nv) (path m')) \<and>
      waypointCell nv (last (path m')) = retarget nv (pointToCell nv tx ty)"
    if ok: "buildPathTo nv m tx ty = Some (True, m')" for m'
  proof -
    from buildPathTo_cells[OF ok] obtain cells where
      c: "path m' = map cellCenter cells" "cells \<noteq> []" "\<forall>cl \<in> set cells. \<not> isBlocked nv cl"
         "stepwise cells" "last cells = retarget nv (pointToCell nv tx ty)" by blast
    have inv: "waypointCell nv (cellCenter cl) = cl" if "cl \<in> set cells" for cl
      using that c(3) unblocked_inBounds[of nv cl] by (simp add: waypointCell_def pointToCell_cellCenter)
    then have m: "map (waypointCell nv) (path m') = cells" unfolding c(1) by (simp add: map_idI)
    have "waypointCell nv (last (path m')) = last (map (waypointCell nv) (path m'))"
      using c(1,2) by (simp add: last_map)
    with m c inv show ?thesis by auto
  qed
  with buildPathTo_total[of nv m tx ty] show ?thesis by blast
qed

theorem buildPathTo_waypoints_valid_witness:
  "\<exists>m'. buildPathTo arena (monster0 900 560) 895 555 = Some (True, m') \<and>
     path m' \<noteq> [] \<and>
     stepwise (map (waypointCell arena) (path m')) \<and>
     waypointCell arena (last (path m')) = (38, 23)"
proof -
  define m' where "m' = (monster0 900 560)\<lparr>path := map cellCenter [(37, 21), (38, 21), (38, 22), (38, 23)],
      pathIdx := 0, lastTargetKey := Some (38, 23)\<rparr>"
  have ev: "buildPathTo arena (monster0 900 560) 895 555 = Some (True, m')"
    by (simp only: m'_def buildPathTo_corner)
  from buildPathTo_waypoints_valid[of arena "monster0 900 560" 895 555] ev
  have "path m' \<noteq> []" "stepwise (map (waypointCell arena) (path m'))"
    "waypointCell arena (last (path m')) = retarget arena (pointToCell arena 895 555)" by blast+
  with ev show ?thesis unfolding target_cell retarget_corner by blast
qed

end
